theory Spec2Isabelle
  imports Main "HOL-Library.Char_ord" "HOL-Library.List_Lexorder"
begin

section \<open>The consistent-hashing target allocator\<close>

text \<open>
  This theory embeds \<^verbatim>\<open>cmd/otel-allocator/allocation/consistent_hashing.go\<close>.
  The allocator keeps two Go maps of pointers, \<^verbatim>\<open>collectors map[string]*Collector\<close> and
  \<^verbatim>\<open>targetItems map[string]*TargetItem\<close>, and a hash ring of the collectors. The maps are
  modelled as maps from keys to addresses and the objects live in two stores, because
  \<^verbatim>\<open>NumTargets\<close> is updated in place through the pointers and the accessors hand the
  same pointers out. A nil dereference (the only panic the file can raise) is the
  result \<open>None\<close>. Go's \<^verbatim>\<open>range\<close> over a map visits the keys in an unspecified order, so
  every loop takes the order of its visit as an argument. The mutex is not modelled:
  each operation runs under the lock from start to end, so operations are atomic steps.
  Log lines are left out. \<^verbatim>\<open>NumTargets\<close> is a Go \<^verbatim>\<open>int\<close>; it is modelled as an unbounded
  integer, since a count moves by one per target and cannot come near \<open>2^63\<close>.
\<close>

subsection \<open>Entities\<close>

text \<open>
  \<^verbatim>\<open>Collector\<close> and \<^verbatim>\<open>TargetItem\<close> are declared in another file of the package; the
  records have the fields this file reads and writes. \<^verbatim>\<open>Collector.String()\<close> is the
  collector's name. A label set is kept as a list of pairs; the allocator only passes it
  on and hashes it.
\<close>

type_synonym addr = nat

type_synonym LabelSet = "(string \<times> string) list"

record Collector =
  Name :: string
  NumTargets :: int

record TargetItem =
  JobName :: string
  Link :: string
  TargetURL :: string
  Label :: LabelSet
  CollectorName :: string

text \<open>
  What the file calls but does not define: the hash of a target, the ring's lookup (the
  library \<^verbatim>\<open>buraksezer/consistent\<close>), and \<^verbatim>\<open>url.QueryEscape\<close>. They are parameters of
  the model. The ring is represented by its set of member names: the library recomputes
  its partition table from the whole membership at every \<^verbatim>\<open>Add\<close> and \<^verbatim>\<open>Remove\<close>, so a
  lookup is a function of the membership and the key; \<^verbatim>\<open>Add\<close> of a present member and
  \<^verbatim>\<open>Remove\<close> of an absent one do nothing. A lookup in an empty ring gives the nil
  member, here \<open>None\<close>. A member is handed to the ring as the pointer to the collector
  (\<^verbatim>\<open>Add(c.collectors[i.Name])\<close>), and all the ring can read of a member is its
  \<^verbatim>\<open>String()\<close>, the collector's name. No code of this file writes the name of a
  collector once \<^verbatim>\<open>NewCollector\<close> has set it, and the writes by a caller that are
  modelled below leave it alone too, so the name under which a member was added is the
  name it answers with. The hasher (xxhash) and the ring's configuration (1061
  partitions, replication factor 5, load 1.1) are inside the lookup. \<open>ring_ok\<close> is what
  the properties below ask of the library: a ring with members answers with one of them.
\<close>

record deps =
  hashOf :: "string \<Rightarrow> string \<Rightarrow> LabelSet \<Rightarrow> string"
  locateKey :: "string set \<Rightarrow> string \<Rightarrow> string option"
  queryEscape :: "string \<Rightarrow> string"

definition ring_ok :: "deps \<Rightarrow> bool" where
  "ring_ok D \<longleftrightarrow>
     (\<forall>S key. finite S \<and> S \<noteq> {} \<longrightarrow> (\<exists>n \<in> S. locateKey D S key = Some n)) \<and>
     (\<forall>key. locateKey D {} key = None)"

definition Hash :: "deps \<Rightarrow> TargetItem \<Rightarrow> string" where
  \<comment> \<open>Modelled from the spec: \<^verbatim>\<open>TargetItem.Hash\<close> is declared in a file that is not at hand;
      the spec gives it as a deterministic hash over job name, URL and labels, independent
      of the owning collector.\<close>
  "Hash D t = hashOf D (JobName t) (TargetURL t) (Label t)"

definition NewCollector :: "string \<Rightarrow> Collector" where
  \<comment> \<open>Modelled from the spec: \<^verbatim>\<open>NewCollector\<close> is declared in a file that is not at hand; a
      collector has a name and a count of targets, which starts at zero.\<close>
  "NewCollector name = \<lparr>Name = name, NumTargets = 0\<rparr>"

subsection \<open>The diff engine\<close>

record 'v Changes =
  additions :: "string \<rightharpoonup> 'v"
  removals :: "string \<rightharpoonup> 'v"

definition Maps :: "(string \<rightharpoonup> 'v) \<Rightarrow> (string \<rightharpoonup> 'v) \<Rightarrow> 'v Changes" where
  \<comment> \<open>Modelled from the spec: package \<^verbatim>\<open>diff\<close> is not at hand. Additions are the elements
      whose key is present in new but not old, removals those whose key is present in old
      but not new.\<close>
  "Maps current new =
     \<lparr>additions = (\<lambda>k. if k \<in> dom current then None else new k),
      removals = (\<lambda>k. if k \<in> dom new then None else current k)\<rparr>"

subsection \<open>State\<close>

record allocator =
  consistentHasher :: "string set"
  collectors :: "string \<rightharpoonup> addr"
  targetItems :: "string \<rightharpoonup> addr"
  collectorAt :: "addr \<Rightarrow> Collector"
  targetItemAt :: "addr \<Rightarrow> TargetItem"
  nextAddr :: addr
  TargetsPerCollector :: "string \<times> string \<rightharpoonup> int"
  CollectorsAllocatable :: "string \<rightharpoonup> int"
  TimeToAssign :: "string \<times> string \<Rightarrow> nat"

text \<open>
  \<open>collectorAt\<close> and \<open>targetItemAt\<close> are the stores of the objects, \<open>nextAddr\<close> the next
  address an allocation returns. The three last fields are the Prometheus metrics the
  file writes: two gauges (a gauge's value is a \<^verbatim>\<open>float64\<close> converted from an integer,
  kept here as that integer) and the number of observations of the latency histogram
  (the observed duration is wall-clock time and is not modelled).
\<close>

definition consistentHashingStrategyName :: string where
  "consistentHashingStrategyName = ''consistent-hashing''"

definition newConsistentHashingAllocator :: allocator where
  "newConsistentHashingAllocator =
     \<lparr>consistentHasher = {}, collectors = Map.empty, targetItems = Map.empty,
      collectorAt = (\<lambda>_. NewCollector []),
      targetItemAt = (\<lambda>_. \<lparr>JobName = [], Link = [], TargetURL = [], Label = [], CollectorName = []\<rparr>),
      nextAddr = 0,
      TargetsPerCollector = Map.empty, CollectorsAllocatable = Map.empty,
      TimeToAssign = (\<lambda>_. 0)\<rparr>"

text \<open>The dereferenced maps: what a reader of the allocator's maps sees.\<close>

definition liveCollectors :: "allocator \<Rightarrow> string \<rightharpoonup> Collector" where
  "liveCollectors c = (\<lambda>n. map_option (collectorAt c) (collectors c n))"

definition liveTargets :: "allocator \<Rightarrow> string \<rightharpoonup> TargetItem" where
  "liveTargets c = (\<lambda>k. map_option (targetItemAt c) (targetItems c k))"

subsection \<open>Loops over Go maps\<close>

text \<open>
  \<^verbatim>\<open>for k, v := range m\<close>, visiting the keys in the order \<open>ks\<close>. The map is read in the
  current state, so an entry deleted before its turn is not visited.
\<close>

fun rangeMap :: "'k list \<Rightarrow> ('s \<Rightarrow> 'k \<rightharpoonup> 'v) \<Rightarrow> ('k \<Rightarrow> 'v \<Rightarrow> 's \<Rightarrow> 's option) \<Rightarrow> 's \<Rightarrow> 's option" where
  "rangeMap [] m body s = Some s"
| "rangeMap (k # ks) m body s =
     (case m s k of
        None \<Rightarrow> rangeMap ks m body s
      | Some v \<Rightarrow> (case body k v s of None \<Rightarrow> None | Some s' \<Rightarrow> rangeMap ks m body s'))"

definition is_order :: "'k list \<Rightarrow> ('k \<rightharpoonup> 'v) \<Rightarrow> bool" where
  "is_order ks m \<longleftrightarrow> distinct ks \<and> set ks = dom m"

subsection \<open>Metrics\<close>

definition setTargetsPerCollector :: "string \<Rightarrow> int \<Rightarrow> allocator \<Rightarrow> allocator" where
  "setTargetsPerCollector name v c =
     c\<lparr>TargetsPerCollector := (TargetsPerCollector c)((name, consistentHashingStrategyName) \<mapsto> v)\<rparr>"

definition observeDuration :: "string \<Rightarrow> allocator \<Rightarrow> allocator" where
  "observeDuration method c =
     c\<lparr>TimeToAssign := (TimeToAssign c)((method, consistentHashingStrategyName) :=
          Suc (TimeToAssign c (method, consistentHashingStrategyName)))\<rparr>"

definition reportNumTargets :: "string \<Rightarrow> allocator \<Rightarrow> allocator option" where
  \<comment> \<open>\<^verbatim>\<open>TargetsPerCollector.WithLabelValues(name, ...).Set(float64(c.collectors[name].NumTargets))\<close>\<close>
  "reportNumTargets name c =
     (case collectors c name of
        None \<Rightarrow> None
      | Some q \<Rightarrow> Some (setTargetsPerCollector name (NumTargets (collectorAt c q)) c))"

subsection \<open>Assignment\<close>

definition addNumTargets :: "addr \<Rightarrow> int \<Rightarrow> allocator \<Rightarrow> allocator" where
  "addNumTargets p d c =
     c\<lparr>collectorAt := (collectorAt c)(p := (collectorAt c p)\<lparr>NumTargets := NumTargets (collectorAt c p) + d\<rparr>)\<rparr>"

definition storeTargetItem :: "string \<Rightarrow> TargetItem \<Rightarrow> allocator \<Rightarrow> allocator" where
  \<comment> \<open>\<^verbatim>\<open>c.targetItems[k] = &TargetItem{...}\<close>: a new object, and the key bound to it\<close>
  "storeTargetItem k t c =
     c\<lparr>targetItemAt := (targetItemAt c)(nextAddr c := t),
       targetItems := (targetItems c)(k \<mapsto> nextAddr c),
       nextAddr := Suc (nextAddr c)\<rparr>"

definition assigned :: "deps \<Rightarrow> string \<Rightarrow> TargetItem \<Rightarrow> TargetItem" where
  "assigned D colOwner target =
     \<lparr>JobName = JobName target,
      Link = ''/jobs/'' @ queryEscape D (JobName target) @ ''/targets'',
      TargetURL = TargetURL target,
      Label = Label target,
      CollectorName = colOwner\<rparr>"

definition releasePrevious :: "TargetItem \<Rightarrow> allocator \<Rightarrow> allocator option" where
  \<comment> \<open>lines 63 to 66: if the target's owner is a live collector, this is a reassignment\<close>
  "releasePrevious target c =
     (case collectors c (CollectorName target) of
        None \<Rightarrow> Some c
      | Some previousColName \<Rightarrow>
          (let c' = addNumTargets previousColName (- 1) c
           in reportNumTargets (Name (collectorAt c' previousColName)) c'))"

definition assignOwner :: "deps \<Rightarrow> TargetItem \<Rightarrow> allocator \<Rightarrow> allocator option" where
  \<comment> \<open>lines 67 to 77: a nil owner panics at \<^verbatim>\<open>colOwner.String()\<close>, an owner that is not a
      live collector at \<^verbatim>\<open>c.collectors[...].NumTargets++\<close>\<close>
  "assignOwner D target c =
     (case locateKey D (consistentHasher c) (Hash D target) of
        None \<Rightarrow> None
      | Some colOwner \<Rightarrow>
          (let targetItem = assigned D colOwner target;
               c' = storeTargetItem (Hash D targetItem) targetItem c
           in (case collectors c' colOwner of
                 None \<Rightarrow> None
               | Some p \<Rightarrow> reportNumTargets colOwner (addNumTargets p 1 c'))))"

definition addTargetToTargetItems :: "deps \<Rightarrow> TargetItem \<Rightarrow> allocator \<Rightarrow> allocator option" where
  "addTargetToTargetItems D target c =
     (case releasePrevious target c of
        None \<Rightarrow> None
      | Some c' \<Rightarrow> assignOwner D target c')"

subsection \<open>Reconciliation\<close>

definition removeTarget :: "TargetItem Changes \<Rightarrow> string \<Rightarrow> addr \<Rightarrow> allocator \<Rightarrow> allocator option" where
  "removeTarget diff k a c =
     (let target = targetItemAt c a
      in if k \<in> dom (removals diff)
         then (case collectors c (CollectorName target) of
                 None \<Rightarrow> None
               | Some col \<Rightarrow>
                   (let c' = addNumTargets col (- 1) c;
                        c'' = c'\<lparr>targetItems := (targetItems c')(k := None)\<rparr>
                    in Some (setTargetsPerCollector (CollectorName target) (NumTargets (collectorAt c'' col)) c'')))
         else Some c)"

definition addTarget :: "deps \<Rightarrow> string \<Rightarrow> TargetItem \<Rightarrow> allocator \<Rightarrow> allocator option" where
  "addTarget D k target c =
     (if k \<in> dom (targetItems c) then Some c else addTargetToTargetItems D target c)"

definition handleTargets ::
    "deps \<Rightarrow> TargetItem Changes \<Rightarrow> string list \<Rightarrow> string list \<Rightarrow> allocator \<Rightarrow> allocator option" where
  "handleTargets D diff ro ao c =
     (case rangeMap ro targetItems (removeTarget diff) c of
        None \<Rightarrow> None
      | Some c1 \<Rightarrow> rangeMap ao (\<lambda>_. additions diff) (addTarget D) c1)"

definition removeCollector :: "string \<Rightarrow> Collector \<Rightarrow> allocator \<Rightarrow> allocator option" where
  "removeCollector key k c =
     Some (c\<lparr>collectors := (collectors c)(Name k := None),
             consistentHasher := consistentHasher c - {Name k},
             TargetsPerCollector := (TargetsPerCollector c)((Name k, consistentHashingStrategyName) \<mapsto> 0)\<rparr>)"

definition insertCollector :: "string \<Rightarrow> Collector \<Rightarrow> allocator \<Rightarrow> allocator option" where
  "insertCollector key i c =
     Some (c\<lparr>collectorAt := (collectorAt c)(nextAddr c := NewCollector (Name i)),
             collectors := (collectors c)(Name i \<mapsto> nextAddr c),
             nextAddr := Suc (nextAddr c),
             consistentHasher := insert (Name i) (consistentHasher c)\<rparr>)"

definition reallocate :: "deps \<Rightarrow> string \<Rightarrow> addr \<Rightarrow> allocator \<Rightarrow> allocator option" where
  "reallocate D k item c = addTargetToTargetItems D (targetItemAt c item) c"

definition handleCollectors ::
    "deps \<Rightarrow> Collector Changes \<Rightarrow> string list \<Rightarrow> string list \<Rightarrow> string list \<Rightarrow> allocator \<Rightarrow> allocator option" where
  "handleCollectors D diff ro ao to c =
     (case rangeMap ro (\<lambda>_. removals diff) removeCollector c of
        None \<Rightarrow> None
      | Some c1 \<Rightarrow>
          (case rangeMap ao (\<lambda>_. additions diff) insertCollector c1 of
             None \<Rightarrow> None
           | Some c2 \<Rightarrow> rangeMap to targetItems (reallocate D) c2))"

subsection \<open>The public operations\<close>

definition SetTargets ::
    "deps \<Rightarrow> (string \<rightharpoonup> TargetItem) \<Rightarrow> string list \<Rightarrow> string list \<Rightarrow> allocator \<Rightarrow> allocator option" where
  "SetTargets D targets ro ao c =
     map_option (observeDuration ''SetTargets'')
       (if dom (collectors c) = {} then Some c
        else (let targetsDiff = Maps (liveTargets c) targets
              in if dom (additions targetsDiff) \<noteq> {} \<or> dom (removals targetsDiff) \<noteq> {}
                 then handleTargets D targetsDiff ro ao c
                 else Some c))"

definition SetCollectors ::
    "deps \<Rightarrow> (string \<rightharpoonup> Collector) \<Rightarrow> string list \<Rightarrow> string list \<Rightarrow> string list \<Rightarrow> allocator \<Rightarrow> allocator option" where
  "SetCollectors D cols ro ao to c =
     map_option (observeDuration ''SetCollectors'')
       (let c0 = c\<lparr>CollectorsAllocatable :=
                     (CollectorsAllocatable c)(consistentHashingStrategyName \<mapsto> int (card (dom cols)))\<rparr>
        in if dom cols = {} then Some c0
           else (let collectorsDiff = Maps (liveCollectors c0) cols
                 in if dom (additions collectorsDiff) \<noteq> {} \<or> dom (removals collectorsDiff) \<noteq> {}
                    then handleCollectors D collectorsDiff ro ao to c0
                    else Some c0))"

subsection \<open>Snapshots\<close>

text \<open>
  \<^verbatim>\<open>TargetItems()\<close> and \<^verbatim>\<open>Collectors()\<close> make a new map, copy every entry, that is
  every pointer, into it, and return it. \<open>TargetItems ks c\<close> and \<open>Collectors ks c\<close> are the
  content of the local \<^verbatim>\<open>targetItemsCopy\<close> and \<^verbatim>\<open>collectorsCopy\<close> when the loop ends.
\<close>

fun copyMap :: "'k list \<Rightarrow> ('k \<rightharpoonup> 'v) \<Rightarrow> ('k \<rightharpoonup> 'v) \<Rightarrow> ('k \<rightharpoonup> 'v)" where
  "copyMap [] m copy = copy"
| "copyMap (k # ks) m copy = copyMap ks m (case m k of None \<Rightarrow> copy | Some v \<Rightarrow> copy(k \<mapsto> v))"

definition TargetItems :: "string list \<Rightarrow> allocator \<Rightarrow> (string \<rightharpoonup> addr)" where
  "TargetItems ks c = copyMap ks (targetItems c) Map.empty"








subsection \<open>Runs\<close>

text \<open>
  A call of the public interface, with the input map and the orders in which the loops of
  the call visit their maps. A state is reachable when calls lead to it from the new
  allocator; the predicate \<open>P\<close> says which calls are considered.
\<close>

datatype call =
    SetTargetsCall "string \<rightharpoonup> TargetItem" "string list" "string list"
  | SetCollectorsCall "string \<rightharpoonup> Collector" "string list" "string list" "string list"

fun run :: "deps \<Rightarrow> call \<Rightarrow> allocator \<Rightarrow> allocator option" where
  "run D (SetTargetsCall targets ro ao) c = SetTargets D targets ro ao c"
| "run D (SetCollectorsCall cols ro ao to) c = SetCollectors D cols ro ao to c"

text \<open>The orders of a call are orders of the maps its loops range over.\<close>

fun orders_ok :: "allocator \<Rightarrow> call \<Rightarrow> bool" where
  "orders_ok c (SetTargetsCall targets ro ao) \<longleftrightarrow>
     is_order ro (targetItems c) \<and> is_order ao (additions (Maps (liveTargets c) targets))"
| "orders_ok c (SetCollectorsCall cols ro ao to) \<longleftrightarrow>
     is_order ro (removals (Maps (liveCollectors c) cols)) \<and>
     is_order ao (additions (Maps (liveCollectors c) cols)) \<and>
     is_order to (targetItems c)"

inductive reachable :: "deps \<Rightarrow> (allocator \<Rightarrow> call \<Rightarrow> bool) \<Rightarrow> allocator \<Rightarrow> bool"
  for D :: deps and P :: "allocator \<Rightarrow> call \<Rightarrow> bool" where
  initial: "reachable D P newConsistentHashingAllocator"
| step: "reachable D P c \<Longrightarrow> orders_ok c x \<Longrightarrow> P c x \<Longrightarrow> run D x c = Some c' \<Longrightarrow> reachable D P c'"

definition any_call :: "allocator \<Rightarrow> call \<Rightarrow> bool" where
  "any_call c x \<longleftrightarrow> True"

fun runs :: "deps \<Rightarrow> call list \<Rightarrow> allocator \<Rightarrow> allocator option" where
  "runs D [] c = Some c"
| "runs D (x # xs) c = (case run D x c of None \<Rightarrow> None | Some c' \<Rightarrow> runs D xs c')"

fun runs_ok :: "deps \<Rightarrow> (allocator \<Rightarrow> call \<Rightarrow> bool) \<Rightarrow> call list \<Rightarrow> allocator \<Rightarrow> bool" where
  "runs_ok D P [] c \<longleftrightarrow> True"
| "runs_ok D P (x # xs) c \<longleftrightarrow>
     orders_ok c x \<and> P c x \<and> (case run D x c of None \<Rightarrow> False | Some c' \<Rightarrow> runs_ok D P xs c')"

section \<open>Specification\<close>

subsection \<open>Invariants\<close>

text \<open>
  \<open>wfAllocator\<close> holds at every point of a run, also between the loops of a call:
  the ring's members are the keys of the collector map, a collector is stored under its
  name and a target under its hash. \<open>located\<close> holds between calls: the owner of a
  target is the ring's answer for its key. \<open>counted\<close> says that a collector counts
  the targets that name it.
\<close>

text \<open>
  The store is used as Go uses its heap: every pointer held by a map was allocated, and no
  two names of the collector map share an object.
\<close>

definition heap_ok :: "allocator \<Rightarrow> bool" where
  "heap_ok c \<longleftrightarrow>
     (\<forall>n p. collectors c n = Some p \<longrightarrow> p < nextAddr c) \<and>
     (\<forall>n n' p. collectors c n = Some p \<and> collectors c n' = Some p \<longrightarrow> n = n') \<and>
     (\<forall>k a. targetItems c k = Some a \<longrightarrow> a < nextAddr c)"

definition wfAllocator :: "deps \<Rightarrow> allocator \<Rightarrow> bool" where
  "wfAllocator D c \<longleftrightarrow>
     heap_ok c \<and> finite (dom (collectors c)) \<and> finite (dom (targetItems c)) \<and>
     consistentHasher c = dom (collectors c) \<and>
     (\<forall>n p. collectors c n = Some p \<longrightarrow> Name (collectorAt c p) = n) \<and>
     (\<forall>k a. targetItems c k = Some a \<longrightarrow> Hash D (targetItemAt c a) = k)"

definition located :: "deps \<Rightarrow> allocator \<Rightarrow> bool" where
  "located D c \<longleftrightarrow>
     (\<forall>k t. liveTargets c k = Some t \<longrightarrow> locateKey D (consistentHasher c) k = Some (CollectorName t))"

definition invariant :: "deps \<Rightarrow> allocator \<Rightarrow> bool" where
  "invariant D c \<longleftrightarrow> wfAllocator D c \<and> located D c"

definition owned :: "(string \<rightharpoonup> TargetItem) \<Rightarrow> string \<Rightarrow> string set" where
  "owned LT n = {k. \<exists>t. LT k = Some t \<and> CollectorName t = n}"

definition countedV :: "(string \<rightharpoonup> Collector) \<Rightarrow> (string \<rightharpoonup> TargetItem) \<Rightarrow> bool" where
  "countedV LC LT \<longleftrightarrow> (\<forall>n col. LC n = Some col \<longrightarrow> NumTargets col = int (card (owned LT n)))"

definition counted :: "allocator \<Rightarrow> bool" where
  "counted c \<longleftrightarrow> countedV (liveCollectors c) (liveTargets c)"

definition sumNumTargets :: "allocator \<Rightarrow> int" where
  "sumNumTargets c = (\<Sum>n\<in>dom (collectors c). NumTargets (collectorAt c (the (collectors c n))))"

definition bump :: "string \<Rightarrow> int \<Rightarrow> (string \<rightharpoonup> Collector) \<Rightarrow> (string \<rightharpoonup> Collector)" where
  "bump n d m = (case m n of None \<Rightarrow> m | Some col \<Rightarrow> m(n \<mapsto> col\<lparr>NumTargets := NumTargets col + d\<rparr>))"

subsection \<open>The contract of the inputs\<close>

text \<open>
  The code checks nothing of its inputs. What its callers are expected to pass: a target
  map keyed by the targets' hashes, with targets that no collector owns yet, and a
  collector map keyed by the collectors' names.
\<close>

definition keyedByHash :: "deps \<Rightarrow> (string \<rightharpoonup> TargetItem) \<Rightarrow> bool" where
  "keyedByHash D targets \<longleftrightarrow> (\<forall>k t. targets k = Some t \<longrightarrow> Hash D t = k)"

definition unowned :: "allocator \<Rightarrow> (string \<rightharpoonup> TargetItem) \<Rightarrow> bool" where
  "unowned c targets \<longleftrightarrow> (\<forall>k t. targets k = Some t \<longrightarrow> CollectorName t \<notin> dom (collectors c))"

definition keyedByName :: "(string \<rightharpoonup> Collector) \<Rightarrow> bool" where
  "keyedByName cols \<longleftrightarrow> (\<forall>k i. cols k = Some i \<longrightarrow> Name i = k)"

fun contract :: "deps \<Rightarrow> allocator \<Rightarrow> call \<Rightarrow> bool" where
  "contract D c (SetTargetsCall targets ro ao) \<longleftrightarrow> keyedByHash D targets \<and> unowned c targets"
| "contract D c (SetCollectorsCall cols ro ao to) \<longleftrightarrow> keyedByName cols"

fun keyedCall :: "deps \<Rightarrow> allocator \<Rightarrow> call \<Rightarrow> bool" where
  "keyedCall D c (SetTargetsCall targets ro ao) \<longleftrightarrow> keyedByHash D targets"
| "keyedCall D c (SetCollectorsCall cols ro ao to) \<longleftrightarrow> True"

fun sameInput :: "call \<Rightarrow> call \<Rightarrow> bool" where
  "sameInput (SetTargetsCall targets ro ao) (SetTargetsCall targets' ro' ao') \<longleftrightarrow> targets = targets'"
| "sameInput (SetCollectorsCall cols ro ao to) (SetCollectorsCall cols' ro' ao' to') \<longleftrightarrow> cols = cols'"
| "sameInput _ _ \<longleftrightarrow> False"

subsection \<open>What a call computes\<close>

text \<open>
  The live targets after SetTargets and the ring and the live targets after
  SetCollectors, as functions of the state before and of the input map alone.
\<close>

definition targetsAfter ::
    "deps \<Rightarrow> string set \<Rightarrow> (string \<rightharpoonup> TargetItem) \<Rightarrow> (string \<rightharpoonup> TargetItem) \<Rightarrow> (string \<rightharpoonup> TargetItem)" where
  "targetsAfter D R LT targets =
     (if R = {} then LT
      else (\<lambda>k. if k \<in> dom LT then (if k \<in> dom targets then LT k else None)
                else map_option (assigned D (the (locateKey D R k))) (targets k)))"

definition ringAfter :: "string set \<Rightarrow> (string \<rightharpoonup> Collector) \<Rightarrow> string set" where
  "ringAfter R cols =
     (if dom cols = {} then R
      else (R \<inter> dom cols) \<union> {n. \<exists>k i. cols k = Some i \<and> k \<notin> R \<and> Name i = n})"

definition reassigned :: "deps \<Rightarrow> string set \<Rightarrow> (string \<rightharpoonup> TargetItem) \<Rightarrow> (string \<rightharpoonup> TargetItem)" where
  "reassigned D R LT = (\<lambda>k. map_option (assigned D (the (locateKey D R k))) (LT k))"

definition addedNames :: "Collector Changes \<Rightarrow> string set \<Rightarrow> string set" where
  "addedNames diff dn = {n. \<exists>k i. k \<in> dn \<and> additions diff k = Some i \<and> Name i = n}"

subsection \<open>Writes by a caller\<close>





subsection \<open>Examples\<close>

text \<open>Concrete rings, targets and runs, on which the properties below are evaluated.\<close>

text \<open>
  An example environment: the hash of a target is its job name followed by its URL; the
  ring gives a key of even length to the least member and a key of odd length to the
  greatest one.
\<close>

definition exampleRing :: deps where
  "exampleRing =
     \<lparr>hashOf = (\<lambda>job url labels. job @ url),
      locateKey = (\<lambda>S key. if S = {} then None else Some (if even (length key) then Min S else Max S)),
      queryEscape = (\<lambda>s. s)\<rparr>"

definition exampleTarget :: "string \<Rightarrow> string \<Rightarrow> TargetItem" where
  "exampleTarget job owner = \<lparr>JobName = job, Link = [], TargetURL = ''u'', Label = [], CollectorName = owner\<rparr>"

definition exampleCalls :: "call list" where
  "exampleCalls =
     [SetCollectorsCall [''A'' \<mapsto> NewCollector ''A''] [] [''A''] [],
      SetTargetsCall [''j1u'' \<mapsto> exampleTarget ''j1'' [], ''j22u'' \<mapsto> exampleTarget ''j22'' []]
        [] [''j22u'', ''j1u''],
      SetCollectorsCall [''A'' \<mapsto> NewCollector ''A'', ''B'' \<mapsto> NewCollector ''B'']
        [] [''B''] [''j1u'', ''j22u'']]"

definition exampleState :: allocator where
  "exampleState = the (runs exampleRing exampleCalls newConsistentHashingAllocator)"

definition exampleCall :: call where
  "exampleCall =
     SetCollectorsCall [''B'' \<mapsto> NewCollector ''B''] [''A''] [] [''j1u'', ''j22u'']"

definition exampleCallsOtherOrder :: "call list" where
  "exampleCallsOtherOrder =
     [SetCollectorsCall [''A'' \<mapsto> NewCollector ''A''] [] [''A''] [],
      SetTargetsCall [''j1u'' \<mapsto> exampleTarget ''j1'' [], ''j22u'' \<mapsto> exampleTarget ''j22'' []]
        [] [''j1u'', ''j22u''],
      SetCollectorsCall [''A'' \<mapsto> NewCollector ''A'', ''B'' \<mapsto> NewCollector ''B'']
        [] [''B''] [''j22u'', ''j1u'']]"

definition preownedCalls :: "call list" where
  "preownedCalls =
     [SetCollectorsCall [''A'' \<mapsto> NewCollector ''A''] [] [''A''] [],
      SetTargetsCall [''j1u'' \<mapsto> exampleTarget ''j1'' ''A''] [] [''j1u'']]"

definition sharedHashCalls :: "call list" where
  "sharedHashCalls =
     [SetCollectorsCall [''A'' \<mapsto> NewCollector ''A''] [] [''A''] [],
      SetTargetsCall [''k1'' \<mapsto> exampleTarget ''j1'' [], ''k2'' \<mapsto> exampleTarget ''j1'' []]
        [] [''k1'', ''k2'']]"

definition misnamedCalls :: "call list" where
  "misnamedCalls =
     [SetCollectorsCall [''A'' \<mapsto> NewCollector ''A''] [] [''A''] [],
      SetTargetsCall [''j1u'' \<mapsto> exampleTarget ''j1'' []] [] [''j1u''],
      SetCollectorsCall [''x'' \<mapsto> NewCollector ''A''] [''A''] [''x''] [''j1u'']]"

definition twiceCalls :: "call list" where
  "twiceCalls =
     [SetCollectorsCall [''A'' \<mapsto> NewCollector ''A''] [] [''A''] [],
      SetTargetsCall [''j1u'' \<mapsto> exampleTarget ''j1'' []] [] [''j1u''],
      SetTargetsCall [''j1u'' \<mapsto> exampleTarget ''j1'' []] [''j1u''] []]"

definition twiceMiskeyedCalls :: "call list" where
  "twiceMiskeyedCalls =
     [SetCollectorsCall [''A'' \<mapsto> NewCollector ''A''] [] [''A''] [],
      SetTargetsCall [''k'' \<mapsto> exampleTarget ''j1'' []] [] [''k''],
      SetTargetsCall [''k'' \<mapsto> exampleTarget ''j1'' []] [''j1u''] [''k'']]"

definition miskeyedCalls :: "string list \<Rightarrow> call list" where
  "miskeyedCalls ao =
     [SetCollectorsCall [''A'' \<mapsto> NewCollector ''A''] [] [''A''] [],
      SetTargetsCall [''k1'' \<mapsto> exampleTarget ''a'' [], ''au'' \<mapsto> exampleTarget ''b'' []] [] ao]"

definition removalCalls :: "call list" where
  "removalCalls =
     [SetCollectorsCall [''A'' \<mapsto> NewCollector ''A''] [] [''A''] [],
      SetTargetsCall [''j1u'' \<mapsto> exampleTarget ''j1'' []] [] [''j1u''],
      SetCollectorsCall [''B'' \<mapsto> NewCollector ''B''] [''A''] [''B''] [''j1u'']]"

text \<open>
  A state as handleCollectors has it when it starts to re-allocate: collector A, whose
  object is at address 0 and counts one target, was removed, collector B was added, and
  the target still names A as its owner.
\<close>

definition orphanState :: allocator where
  "orphanState =
     \<lparr>consistentHasher = {''B''}, collectors = [''B'' \<mapsto> 2], targetItems = [''j1u'' \<mapsto> 1],
      collectorAt = (\<lambda>_. NewCollector [])(0 := \<lparr>Name = ''A'', NumTargets = 1\<rparr>, 2 := NewCollector ''B''),
      targetItemAt = (targetItemAt newConsistentHashingAllocator)
                       (1 := assigned exampleRing ''A'' (exampleTarget ''j1'' [])),
      nextAddr = 3,
      TargetsPerCollector = [(''A'', consistentHashingStrategyName) \<mapsto> 0],
      CollectorsAllocatable = [consistentHashingStrategyName \<mapsto> 1],
      TimeToAssign = (\<lambda>_. 0)((''SetCollectors'', consistentHashingStrategyName) := 1,
                                (''SetTargets'', consistentHashingStrategyName) := 1)\<rparr>"




section \<open>Properties\<close>

subsection \<open>Loops\<close>

text \<open>
  The rule for a loop over a map: an invariant that speaks of the set of keys visited so
  far holds for the empty set at the start, every visit of a further key keeps it, so the
  loop returns and the invariant holds for all keys of the order.
\<close>

lemma rangeMap_rule_aux:
  assumes "distinct ks" and "dn \<inter> set ks = {}" and "Inv dn c"
    and "\<And>k dn c. Inv dn c \<Longrightarrow> k \<in> set ks \<Longrightarrow> k \<notin> dn \<Longrightarrow>
           (case m c k of None \<Rightarrow> Inv (insert k dn) c
            | Some v \<Rightarrow> (\<exists>c'. body k v c = Some c' \<and> Inv (insert k dn) c'))"
  shows "\<exists>c'. rangeMap ks m body c = Some c' \<and> Inv (dn \<union> set ks) c'"
  using assms
proof (induction ks arbitrary: dn c)
  case Nil
  then show ?case by simp
next
  case (Cons k ks)
  have knd: "k \<notin> dn" using Cons.prems(2) by auto
  have step: "case m c k of None \<Rightarrow> Inv (insert k dn) c
            | Some v \<Rightarrow> (\<exists>c'. body k v c = Some c' \<and> Inv (insert k dn) c')"
    using Cons.prems(4)[OF Cons.prems(3) _ knd] by simp
  have d: "distinct ks" and disj: "insert k dn \<inter> set ks = {}"
    using Cons.prems(1,2) by auto
  have rest: "\<And>k' dn' c'. Inv dn' c' \<Longrightarrow> k' \<in> set ks \<Longrightarrow> k' \<notin> dn' \<Longrightarrow>
           (case m c' k' of None \<Rightarrow> Inv (insert k' dn') c'
            | Some v \<Rightarrow> (\<exists>c''. body k' v c' = Some c'' \<and> Inv (insert k' dn') c''))"
    using Cons.prems(4) by simp
  show ?case
  proof (cases "m c k")
    case None
    with step have "Inv (insert k dn) c" by simp
    from Cons.IH[OF d disj this rest] None show ?thesis by simp
  next
    case (Some v)
    with step obtain c1 where b: "body k v c = Some c1" and i: "Inv (insert k dn) c1" by auto
    from Cons.IH[OF d disj i rest] Some b show ?thesis by simp
  qed
qed

lemma rangeMap_rule:
  assumes "distinct ks" and "Inv {} c"
    and "\<And>k dn c. Inv dn c \<Longrightarrow> k \<in> set ks \<Longrightarrow> k \<notin> dn \<Longrightarrow>
           (case m c k of None \<Rightarrow> Inv (insert k dn) c
            | Some v \<Rightarrow> (\<exists>c'. body k v c = Some c' \<and> Inv (insert k dn) c'))"
  shows "\<exists>c'. rangeMap ks m body c = Some c' \<and> Inv (set ks) c'"
  using rangeMap_rule_aux[where dn="{}" and ks=ks and Inv=Inv and c=c and m=m and body=body] assms by simp

subsection \<open>The effect of one assignment\<close>

lemma storeTargetItem_fields [simp]:
  "consistentHasher (storeTargetItem k t c) = consistentHasher c"
  "collectors (storeTargetItem k t c) = collectors c"
  "targetItems (storeTargetItem k t c) = (targetItems c)(k \<mapsto> nextAddr c)"
  "collectorAt (storeTargetItem k t c) = collectorAt c"
  "targetItemAt (storeTargetItem k t c) = (targetItemAt c)(nextAddr c := t)"
  "nextAddr (storeTargetItem k t c) = Suc (nextAddr c)"
  "TargetsPerCollector (storeTargetItem k t c) = TargetsPerCollector c"
  "CollectorsAllocatable (storeTargetItem k t c) = CollectorsAllocatable c"
  "TimeToAssign (storeTargetItem k t c) = TimeToAssign c"
  by (simp_all add: storeTargetItem_def)

lemma addNumTargets_fields [simp]:
  "consistentHasher (addNumTargets p d c) = consistentHasher c"
  "collectors (addNumTargets p d c) = collectors c"
  "targetItems (addNumTargets p d c) = targetItems c"
  "collectorAt (addNumTargets p d c) =
     (collectorAt c)(p := (collectorAt c p)\<lparr>NumTargets := NumTargets (collectorAt c p) + d\<rparr>)"
  "targetItemAt (addNumTargets p d c) = targetItemAt c"
  "nextAddr (addNumTargets p d c) = nextAddr c"
  "TargetsPerCollector (addNumTargets p d c) = TargetsPerCollector c"
  "CollectorsAllocatable (addNumTargets p d c) = CollectorsAllocatable c"
  "TimeToAssign (addNumTargets p d c) = TimeToAssign c"
  by (simp_all add: addNumTargets_def)

lemma setTargetsPerCollector_fields [simp]:
  "consistentHasher (setTargetsPerCollector n v c) = consistentHasher c"
  "collectors (setTargetsPerCollector n v c) = collectors c"
  "targetItems (setTargetsPerCollector n v c) = targetItems c"
  "collectorAt (setTargetsPerCollector n v c) = collectorAt c"
  "targetItemAt (setTargetsPerCollector n v c) = targetItemAt c"
  "nextAddr (setTargetsPerCollector n v c) = nextAddr c"
  "TargetsPerCollector (setTargetsPerCollector n v c) =
     (TargetsPerCollector c)((n, consistentHashingStrategyName) \<mapsto> v)"
  "CollectorsAllocatable (setTargetsPerCollector n v c) = CollectorsAllocatable c"
  "TimeToAssign (setTargetsPerCollector n v c) = TimeToAssign c"
  by (simp_all add: setTargetsPerCollector_def)

lemma liveTargets_frame:
  "targetItems c' = targetItems c \<Longrightarrow> targetItemAt c' = targetItemAt c \<Longrightarrow> liveTargets c' = liveTargets c"
  by (simp add: liveTargets_def)

lemma liveCollectors_frame:
  "collectors c' = collectors c \<Longrightarrow> collectorAt c' = collectorAt c \<Longrightarrow> liveCollectors c' = liveCollectors c"
  by (simp add: liveCollectors_def)

lemma liveCollectors_addNumTargets:
  assumes "collectors c n = Some p" and "\<And>n'. collectors c n' = Some p \<Longrightarrow> n' = n"
  shows "liveCollectors (addNumTargets p d c) = bump n d (liveCollectors c)"
proof
  fix m
  show "liveCollectors (addNumTargets p d c) m = bump n d (liveCollectors c) m"
  proof (cases "m = n")
    case True
    then show ?thesis using assms(1) by (simp add: liveCollectors_def bump_def)
  next
    case False
    then have "collectors c m \<noteq> Some p" using assms(2)[of m] by blast
    then show ?thesis using assms(1) False
      by (cases "collectors c m") (simp_all add: liveCollectors_def bump_def)
  qed
qed

lemma bump_absent: "m n = None \<Longrightarrow> bump n d m = m"
  by (simp add: bump_def)

lemma wf_addNumTargets: "wfAllocator D c \<Longrightarrow> wfAllocator D (addNumTargets p d c)"
  unfolding wfAllocator_def heap_ok_def by simp

lemma wf_setTargetsPerCollector: "wfAllocator D c \<Longrightarrow> wfAllocator D (setTargetsPerCollector n v c)"
  unfolding wfAllocator_def heap_ok_def by simp

lemma wf_inj: "wfAllocator D c \<Longrightarrow> collectors c n = Some p \<Longrightarrow> collectors c n' = Some p \<Longrightarrow> n' = n"
  unfolding wfAllocator_def heap_ok_def by blast

lemma wf_Name: "wfAllocator D c \<Longrightarrow> collectors c n = Some p \<Longrightarrow> Name (collectorAt c p) = n"
  unfolding wfAllocator_def by blast

lemma wf_fresh_target: "wfAllocator D c \<Longrightarrow> targetItems c k = Some a \<Longrightarrow> a < nextAddr c"
  unfolding wfAllocator_def heap_ok_def by blast

lemma wf_fresh_collector: "wfAllocator D c \<Longrightarrow> collectors c n = Some p \<Longrightarrow> p < nextAddr c"
  unfolding wfAllocator_def heap_ok_def by blast

lemma wf_storeTargetItem:
  assumes "wfAllocator D c" and "Hash D t = k"
  shows "wfAllocator D (storeTargetItem k t c)"
proof -
  have a: "\<And>k a. targetItems c k = Some a \<Longrightarrow> a < nextAddr c"
    and b: "\<And>n p. collectors c n = Some p \<Longrightarrow> p < nextAddr c"
    using assms(1) by (auto dest: wf_fresh_target wf_fresh_collector)
  have c: "\<And>k a. targetItems c k = Some a \<Longrightarrow> a \<noteq> nextAddr c"
    using a by fastforce
  show ?thesis using assms a b c
    unfolding wfAllocator_def heap_ok_def
    by (simp add: less_Suc_eq)
qed

lemma liveTargets_storeTargetItem:
  assumes "wfAllocator D c"
  shows "liveTargets (storeTargetItem k t c) = (liveTargets c)(k \<mapsto> t)"
proof
  fix k'
  show "liveTargets (storeTargetItem k t c) k' = ((liveTargets c)(k \<mapsto> t)) k'"
    using wf_fresh_target[OF assms, of k']
    by (cases "targetItems c k'") (auto simp: liveTargets_def)
qed

lemma releasePrevious_effect:
  assumes "wfAllocator D c"
  shows "\<exists>c'. releasePrevious t c = Some c' \<and> wfAllocator D c' \<and> collectors c' = collectors c
      \<and> consistentHasher c' = consistentHasher c \<and> targetItems c' = targetItems c
      \<and> targetItemAt c' = targetItemAt c \<and> nextAddr c' = nextAddr c
      \<and> liveCollectors c' = bump (CollectorName t) (- 1) (liveCollectors c)
      \<and> CollectorsAllocatable c' = CollectorsAllocatable c \<and> TimeToAssign c' = TimeToAssign c"
proof (cases "collectors c (CollectorName t)")
  case None
  then show ?thesis using assms
    by (simp add: releasePrevious_def bump_def liveCollectors_def)
next
  case (Some p)
  have nm: "Name (collectorAt c p) = CollectorName t" using assms Some by (rule wf_Name)
  have lc: "liveCollectors (addNumTargets p (- 1) c) = bump (CollectorName t) (- 1) (liveCollectors c)"
    using Some wf_inj[OF assms Some] by (rule liveCollectors_addNumTargets)
  have lc': "liveCollectors (setTargetsPerCollector x v (addNumTargets p (- 1) c))
        = liveCollectors (addNumTargets p (- 1) c)" for x v
    by (rule liveCollectors_frame) simp_all
  show ?thesis using Some nm lc lc' wf_setTargetsPerCollector[OF wf_addNumTargets[OF assms]]
    by (simp add: releasePrevious_def reportNumTargets_def Let_def)
qed

lemma assignOwner_effect:
  assumes "wfAllocator D c" and "locateKey D (consistentHasher c) (Hash D t) = Some owner"
    and "owner \<in> dom (collectors c)"
  shows "\<exists>c'. assignOwner D t c = Some c' \<and> wfAllocator D c' \<and> collectors c' = collectors c
      \<and> consistentHasher c' = consistentHasher c
      \<and> targetItems c' = (targetItems c)(Hash D t \<mapsto> nextAddr c)
      \<and> nextAddr c' = Suc (nextAddr c)
      \<and> liveTargets c' = (liveTargets c)(Hash D t \<mapsto> assigned D owner t)
      \<and> liveCollectors c' = bump owner 1 (liveCollectors c)
      \<and> CollectorsAllocatable c' = CollectorsAllocatable c \<and> TimeToAssign c' = TimeToAssign c"
proof -
  from assms(3) obtain p where p: "collectors c owner = Some p" by auto
  have h: "Hash D (assigned D owner t) = Hash D t" by (simp add: Hash_def assigned_def)
  define c1 where "c1 = storeTargetItem (Hash D t) (assigned D owner t) c"
  define c2 where "c2 = addNumTargets p 1 c1"
  define c3 where "c3 = setTargetsPerCollector owner (NumTargets (collectorAt c2 p)) c2"
  have w1: "wfAllocator D c1" unfolding c1_def using assms(1) h by (rule wf_storeTargetItem)
  have w3: "wfAllocator D c3" unfolding c3_def c2_def
    by (rule wf_setTargetsPerCollector[OF wf_addNumTargets[OF w1]])
  have p1: "collectors c1 owner = Some p" unfolding c1_def using p by simp
  have run: "assignOwner D t c = Some c3"
    using assms(2) p h
    by (simp add: assignOwner_def Let_def reportNumTargets_def c3_def c2_def c1_def)
  have lc1: "liveCollectors c1 = liveCollectors c"
    unfolding c1_def by (rule liveCollectors_frame) simp_all
  have lc2: "liveCollectors c2 = bump owner 1 (liveCollectors c1)"
    unfolding c2_def using p1 wf_inj[OF w1 p1] by (rule liveCollectors_addNumTargets)
  have lc3: "liveCollectors c3 = liveCollectors c2"
    unfolding c3_def by (rule liveCollectors_frame) simp_all
  have lt1: "liveTargets c1 = (liveTargets c)(Hash D t \<mapsto> assigned D owner t)"
    unfolding c1_def using assms(1) by (rule liveTargets_storeTargetItem)
  have lt3: "liveTargets c3 = liveTargets c1"
    unfolding c3_def c2_def by (rule liveTargets_frame) simp_all
  show ?thesis using run w3 lc1 lc2 lc3 lt1 lt3
    by (simp add: c3_def c2_def c1_def)
qed

lemma addTargetToTargetItems_effect:
  assumes "wfAllocator D c" and "locateKey D (consistentHasher c) (Hash D t) = Some owner"
    and "owner \<in> dom (collectors c)"
  shows "\<exists>c'. addTargetToTargetItems D t c = Some c' \<and> wfAllocator D c' \<and> collectors c' = collectors c
      \<and> consistentHasher c' = consistentHasher c
      \<and> targetItems c' = (targetItems c)(Hash D t \<mapsto> nextAddr c)
      \<and> nextAddr c' = Suc (nextAddr c)
      \<and> liveTargets c' = (liveTargets c)(Hash D t \<mapsto> assigned D owner t)
      \<and> liveCollectors c' = bump owner 1 (bump (CollectorName t) (- 1) (liveCollectors c))
      \<and> CollectorsAllocatable c' = CollectorsAllocatable c \<and> TimeToAssign c' = TimeToAssign c"
proof -
  from releasePrevious_effect[OF assms(1), of t] obtain c1 where
    r: "releasePrevious t c = Some c1" and w1: "wfAllocator D c1" and c1: "collectors c1 = collectors c"
    "consistentHasher c1 = consistentHasher c" "targetItems c1 = targetItems c"
    "targetItemAt c1 = targetItemAt c" "nextAddr c1 = nextAddr c"
    "liveCollectors c1 = bump (CollectorName t) (- 1) (liveCollectors c)"
    "CollectorsAllocatable c1 = CollectorsAllocatable c" "TimeToAssign c1 = TimeToAssign c"
    by blast
  have lt: "liveTargets c1 = liveTargets c" using c1(3,4) by (rule liveTargets_frame)
  have l: "locateKey D (consistentHasher c1) (Hash D t) = Some owner" using assms(2) c1(2) by simp
  have o: "owner \<in> dom (collectors c1)" using assms(3) c1(1) by simp
  from assignOwner_effect[OF w1 l o] r c1 lt show ?thesis
    by (simp add: addTargetToTargetItems_def)
qed

subsection \<open>Counting the targets of a collector\<close>

lemma owned_finite: "finite (dom LT) \<Longrightarrow> finite (owned LT n)"
  by (rule finite_subset[of _ "dom LT"]) (auto simp: owned_def)

lemma owned_update:
  "owned (LT(k \<mapsto> t)) n = (if CollectorName t = n then insert k (owned LT n) else owned LT n - {k})"
  by (auto simp: owned_def)

lemma owned_delete: "owned (LT(k := None)) n = owned LT n - {k}"
  by (auto simp: owned_def)

lemma owned_iff: "k \<in> owned LT n \<longleftrightarrow> (\<exists>t. LT k = Some t \<and> CollectorName t = n)"
  by (simp add: owned_def)

lemma bump_apply:
  "bump n d LC m = (if m = n then map_option (\<lambda>col. col\<lparr>NumTargets := NumTargets col + d\<rparr>) (LC n) else LC m)"
  by (cases "LC n") (simp_all add: bump_def)

lemma card_remove_int:
  assumes "finite A" and "k \<in> A"
  shows "int (card (A - {k})) = int (card A) - 1"
proof -
  have "card A = Suc (card (A - {k}))" using assms by (rule card.remove)
  then show ?thesis by simp
qed

lemma countedV_remove:
  assumes "countedV LC LT" and "finite (dom LT)" and "LT k = Some t"
  shows "countedV (bump (CollectorName t) (- 1) LC) (LT(k := None))"
  unfolding countedV_def
proof (intro allI impI)
  fix n col assume b: "bump (CollectorName t) (- 1) LC n = Some col"
  show "NumTargets col = int (card (owned (LT(k := None)) n))"
  proof (cases "n = CollectorName t")
    case True
    from b True obtain col0 where c0: "LC n = Some col0" and col: "col = col0\<lparr>NumTargets := NumTargets col0 + (- 1)\<rparr>"
      by (auto simp: bump_apply)
    have kin: "k \<in> owned LT n" using assms(3) True by (simp add: owned_iff)
    have "NumTargets col0 = int (card (owned LT n))" using assms(1) c0 by (simp add: countedV_def)
    then show ?thesis using col card_remove_int[OF owned_finite[OF assms(2)] kin]
      by (simp add: owned_delete)
  next
    case False
    then have c0: "LC n = Some col" using b by (simp add: bump_apply)
    have "k \<notin> owned LT n" using assms(3) False by (auto simp: owned_iff)
    then show ?thesis using assms(1) c0 by (simp add: owned_delete countedV_def)
  qed
qed

lemma countedV_reassign:
  assumes "countedV LC LT" and "finite (dom LT)" and "LT k = Some t" and "CollectorName t' = owner"
  shows "countedV (bump owner 1 (bump (CollectorName t) (- 1) LC)) (LT(k \<mapsto> t'))"
  unfolding countedV_def
proof (intro allI impI)
  fix n col assume b: "bump owner 1 (bump (CollectorName t) (- 1) LC) n = Some col"
  have fin: "finite (owned LT n)" by (rule owned_finite[OF assms(2)])
  have kin: "k \<in> owned LT n \<longleftrightarrow> n = CollectorName t" using assms(3) by (auto simp: owned_iff)
  from b obtain col0 where c0: "LC n = Some col0"
    and col: "NumTargets col = NumTargets col0 + (if n = CollectorName t then - 1 else 0) + (if n = owner then 1 else 0)"
    by (cases "LC n") (auto simp: bump_apply split: if_splits)
  have base: "NumTargets col0 = int (card (owned LT n))" using assms(1) c0 by (simp add: countedV_def)
  show "NumTargets col = int (card (owned (LT(k \<mapsto> t')) n))"
  proof (cases "n = owner")
    case True
    show ?thesis
    proof (cases "n = CollectorName t")
      case t: True
      then have "insert k (owned LT n) = owned LT n" using kin by auto
      then show ?thesis using True t col base assms(4) by (simp add: owned_update)
    next
      case f: False
      then have "k \<notin> owned LT n" using kin by simp
      then show ?thesis using True f col base assms(4) fin by (simp add: owned_update)
    qed
  next
    case False
    show ?thesis
    proof (cases "n = CollectorName t")
      case t: True
      then have "k \<in> owned LT n" using kin by simp
      from card_remove_int[OF fin this] show ?thesis using False t col base assms(4)
        by (simp add: owned_update)
    next
      case f: False
      then have "k \<notin> owned LT n" using kin by simp
      then show ?thesis using False f col base assms(4) by (simp add: owned_update)
    qed
  qed
qed

lemma countedV_add:
  assumes "countedV LC LT" and "finite (dom LT)" and "LT k = None" and "CollectorName t' = owner"
    and "LC prev = None"
  shows "countedV (bump owner 1 (bump prev (- 1) LC)) (LT(k \<mapsto> t'))"
  unfolding countedV_def
proof (intro allI impI)
  fix n col assume b: "bump owner 1 (bump prev (- 1) LC) n = Some col"
  have fin: "finite (owned LT n)" by (rule owned_finite[OF assms(2)])
  have kin: "k \<notin> owned LT n" using assms(3) by (auto simp: owned_iff)
  have bp: "bump prev (- 1) LC = LC" using assms(5) by (rule bump_absent)
  from b obtain col0 where c0: "LC n = Some col0"
    and col: "NumTargets col = NumTargets col0 + (if n = owner then 1 else 0)"
    unfolding bp by (cases "LC n") (auto simp: bump_apply split: if_splits)
  have base: "NumTargets col0 = int (card (owned LT n))" using assms(1) c0 by (simp add: countedV_def)
  show "NumTargets col = int (card (owned (LT(k \<mapsto> t')) n))"
    using col base assms(4) fin kin by (cases "n = owner") (auto simp: owned_update)
qed

lemma dom_owned:
  assumes "\<And>k t. LT k = Some t \<Longrightarrow> CollectorName t \<in> S"
  shows "dom LT = (\<Union>n\<in>S. owned LT n)"
  using assms by (auto simp: owned_def)

lemma countedV_sum:
  assumes "countedV LC LT" and "finite (dom LC)" and "finite (dom LT)"
    and "\<And>k t. LT k = Some t \<Longrightarrow> CollectorName t \<in> dom LC"
  shows "(\<Sum>n\<in>dom LC. NumTargets (the (LC n))) = int (card (dom LT))"
proof -
  have "(\<Sum>n\<in>dom LC. NumTargets (the (LC n))) = (\<Sum>n\<in>dom LC. int (card (owned LT n)))"
    using assms(1) by (intro sum.cong) (auto simp: countedV_def)
  also have "\<dots> = int (\<Sum>n\<in>dom LC. card (owned LT n))" by simp
  also have "(\<Sum>n\<in>dom LC. card (owned LT n)) = card (\<Union>n\<in>dom LC. owned LT n)"
  proof (rule card_UN_disjoint[symmetric])
    show "finite (dom LC)" by (rule assms(2))
    show "\<forall>i\<in>dom LC. finite (owned LT i)" using assms(3) by (simp add: owned_finite)
    show "\<forall>i\<in>dom LC. \<forall>j\<in>dom LC. i \<noteq> j \<longrightarrow> owned LT i \<inter> owned LT j = {}"
      by (auto simp: owned_def)
  qed
  also have "(\<Union>n\<in>dom LC. owned LT n) = dom LT"
    using dom_owned[of LT "dom LC"] assms(4) by simp
  finally show ?thesis .
qed

subsection \<open>The dereferenced maps and the ring\<close>

lemma liveTargets_Some: "liveTargets c k = Some t \<longleftrightarrow> (\<exists>a. targetItems c k = Some a \<and> targetItemAt c a = t)"
  by (cases "targetItems c k") (auto simp: liveTargets_def)

lemma liveCollectors_Some: "liveCollectors c n = Some col \<longleftrightarrow> (\<exists>p. collectors c n = Some p \<and> collectorAt c p = col)"
  by (cases "collectors c n") (auto simp: liveCollectors_def)

lemma dom_liveTargets [simp]: "dom (liveTargets c) = dom (targetItems c)"
  by (auto simp: liveTargets_def)

lemma dom_liveCollectors [simp]: "dom (liveCollectors c) = dom (collectors c)"
  by (auto simp: liveCollectors_def)

lemma liveTargets_None: "liveTargets c k = None \<longleftrightarrow> targetItems c k = None"
  by (simp add: liveTargets_def)

lemma liveCollectors_None: "liveCollectors c n = None \<longleftrightarrow> collectors c n = None"
  by (simp add: liveCollectors_def)

lemma wf_Hash: "wfAllocator D c \<Longrightarrow> liveTargets c k = Some t \<Longrightarrow> Hash D t = k"
  unfolding wfAllocator_def liveTargets_Some by blast

lemma wf_ring: "wfAllocator D c \<Longrightarrow> consistentHasher c = dom (collectors c)"
  unfolding wfAllocator_def by blast

lemma wf_finite: "wfAllocator D c \<Longrightarrow> finite (dom (collectors c))" "wfAllocator D c \<Longrightarrow> finite (dom (targetItems c))"
  unfolding wfAllocator_def by blast+

lemma ring_owner:
  assumes "ring_ok D" and "wfAllocator D c" and "dom (collectors c) \<noteq> {}"
  shows "\<exists>owner. locateKey D (consistentHasher c) key = Some owner \<and> owner \<in> dom (collectors c)"
proof -
  have "finite (consistentHasher c) \<and> consistentHasher c \<noteq> {}"
    using assms(2,3) by (simp add: wf_ring wf_finite)
  then have "\<exists>n\<in>consistentHasher c. locateKey D (consistentHasher c) key = Some n"
    using assms(1) unfolding ring_ok_def by blast
  then show ?thesis using wf_ring[OF assms(2)] by auto
qed

lemma ring_empty: "ring_ok D \<Longrightarrow> locateKey D {} key = None"
  unfolding ring_ok_def by blast

lemma located_owner:
  assumes "ring_ok D" and "invariant D c" and "liveTargets c k = Some t"
  shows "CollectorName t \<in> dom (collectors c)"
proof -
  have w: "wfAllocator D c" and l: "locateKey D (consistentHasher c) k = Some (CollectorName t)"
    using assms(2,3) by (auto simp: invariant_def located_def)
  have ne: "dom (collectors c) \<noteq> {}"
  proof
    assume "dom (collectors c) = {}"
    then have "consistentHasher c = {}" using wf_ring[OF w] by simp
    then show False using l ring_empty[OF assms(1)] by simp
  qed
  from ring_owner[OF assms(1) w ne, of k] l show ?thesis by auto
qed

subsection \<open>The bodies of the loops\<close>

lemma removeTarget_effect:
  assumes "wfAllocator D c" and "targetItems c k = Some a"
    and "CollectorName (targetItemAt c a) \<in> dom (collectors c)"
  shows "\<exists>c'. removeTarget diff k a c = Some c' \<and> wfAllocator D c' \<and> collectors c' = collectors c
      \<and> consistentHasher c' = consistentHasher c \<and> nextAddr c' = nextAddr c
      \<and> CollectorsAllocatable c' = CollectorsAllocatable c \<and> TimeToAssign c' = TimeToAssign c
      \<and> (if k \<in> dom (removals diff)
          then liveTargets c' = (liveTargets c)(k := None) \<and>
               liveCollectors c' = bump (CollectorName (targetItemAt c a)) (- 1) (liveCollectors c)
          else c' = c)"
proof (cases "k \<in> dom (removals diff)")
  case False
  then show ?thesis using assms(1) by (simp add: removeTarget_def)
next
  case True
  let ?n = "CollectorName (targetItemAt c a)"
  from assms(3) obtain p where p: "collectors c ?n = Some p" by auto
  define c1 where "c1 = addNumTargets p (- 1) c"
  define c2 where "c2 = c1\<lparr>targetItems := (targetItems c1)(k := None)\<rparr>"
  define c3 where "c3 = setTargetsPerCollector ?n (NumTargets (collectorAt c2 p)) c2"
  have run: "removeTarget diff k a c = Some c3"
    using True p by (simp add: removeTarget_def Let_def c3_def c2_def c1_def)
  have w1: "wfAllocator D c1" unfolding c1_def using assms(1) by (rule wf_addNumTargets)
  have w2: "wfAllocator D c2" using w1 unfolding c2_def wfAllocator_def heap_ok_def by (auto split: if_splits)
  have w3: "wfAllocator D c3" unfolding c3_def using w2 by (rule wf_setTargetsPerCollector)
  have lc1: "liveCollectors c1 = bump ?n (- 1) (liveCollectors c)"
    unfolding c1_def using p wf_inj[OF assms(1) p] by (rule liveCollectors_addNumTargets)
  have lc3: "liveCollectors c3 = liveCollectors c1"
    by (rule liveCollectors_frame) (simp_all add: c3_def c2_def)
  have lt3: "liveTargets c3 = (liveTargets c)(k := None)"
    by (auto simp: fun_eq_iff liveTargets_def c3_def c2_def c1_def)
  show ?thesis using True run w3 lc1 lc3 lt3
    by (simp add: c3_def c2_def c1_def)
qed

lemma removeCollector_effect:
  assumes "wfAllocator D c"
  shows "\<exists>c'. removeCollector key k c = Some c' \<and> wfAllocator D c'
      \<and> collectors c' = (collectors c)(Name k := None)
      \<and> targetItems c' = targetItems c \<and> targetItemAt c' = targetItemAt c
      \<and> collectorAt c' = collectorAt c \<and> nextAddr c' = nextAddr c
      \<and> CollectorsAllocatable c' = CollectorsAllocatable c \<and> TimeToAssign c' = TimeToAssign c"
proof -
  have "wfAllocator D (c\<lparr>collectors := (collectors c)(Name k := None),
             consistentHasher := consistentHasher c - {Name k},
             TargetsPerCollector := (TargetsPerCollector c)((Name k, consistentHashingStrategyName) \<mapsto> 0)\<rparr>)"
    using assms unfolding wfAllocator_def heap_ok_def by (auto split: if_splits)
  then show ?thesis by (simp add: removeCollector_def)
qed

lemma insertCollector_effect:
  assumes "wfAllocator D c"
  shows "\<exists>c'. insertCollector key i c = Some c' \<and> wfAllocator D c'
      \<and> collectors c' = (collectors c)(Name i \<mapsto> nextAddr c)
      \<and> liveCollectors c' = (liveCollectors c)(Name i \<mapsto> NewCollector (Name i))
      \<and> targetItems c' = targetItems c \<and> targetItemAt c' = targetItemAt c
      \<and> nextAddr c' = Suc (nextAddr c)
      \<and> CollectorsAllocatable c' = CollectorsAllocatable c \<and> TimeToAssign c' = TimeToAssign c"
proof -
  let ?c' = "c\<lparr>collectorAt := (collectorAt c)(nextAddr c := NewCollector (Name i)),
             collectors := (collectors c)(Name i \<mapsto> nextAddr c),
             nextAddr := Suc (nextAddr c),
             consistentHasher := insert (Name i) (consistentHasher c)\<rparr>"
  have a: "\<And>k a. targetItems c k = Some a \<Longrightarrow> a < nextAddr c"
    and b: "\<And>n p. collectors c n = Some p \<Longrightarrow> p < nextAddr c"
    using assms by (auto dest: wf_fresh_target wf_fresh_collector)
  have b': "\<And>n p. collectors c n = Some p \<Longrightarrow> p \<noteq> nextAddr c" using b by fastforce
  have w: "wfAllocator D ?c'"
    using assms a b b' unfolding wfAllocator_def heap_ok_def
    by (auto simp: less_Suc_eq NewCollector_def split: if_splits)
  have lc: "liveCollectors ?c' = (liveCollectors c)(Name i \<mapsto> NewCollector (Name i))"
  proof
    fix n show "liveCollectors ?c' n = ((liveCollectors c)(Name i \<mapsto> NewCollector (Name i))) n"
      using b'[of n] by (cases "collectors c n") (auto simp: liveCollectors_def)
  qed
  show ?thesis using w lc by (simp add: insertCollector_def)
qed

subsection \<open>The five loops\<close>

lemma located_subset:
  assumes "located D c" and "consistentHasher c' = consistentHasher c"
    and "\<And>k t. liveTargets c' k = Some t \<Longrightarrow> liveTargets c k = Some t"
  shows "located D c'"
  using assms unfolding located_def by simp

lemma removeTargets_loop:
  assumes "invariant D c" and "ring_ok D" and "distinct ro"
  shows "\<exists>c1. rangeMap ro targetItems (removeTarget diff) c = Some c1 \<and> invariant D c1
      \<and> collectors c1 = collectors c \<and> consistentHasher c1 = consistentHasher c
      \<and> nextAddr c1 = nextAddr c
      \<and> CollectorsAllocatable c1 = CollectorsAllocatable c \<and> TimeToAssign c1 = TimeToAssign c
      \<and> liveTargets c1 = (\<lambda>k. if k \<in> set ro \<and> k \<in> dom (removals diff) then None else liveTargets c k)
      \<and> (counted c \<longrightarrow> counted c1)"
proof -
  define Inv where "Inv = (\<lambda>dn c1. invariant D c1
      \<and> collectors c1 = collectors c \<and> consistentHasher c1 = consistentHasher c
      \<and> nextAddr c1 = nextAddr c
      \<and> CollectorsAllocatable c1 = CollectorsAllocatable c \<and> TimeToAssign c1 = TimeToAssign c
      \<and> liveTargets c1 = (\<lambda>k. if k \<in> dn \<and> k \<in> dom (removals diff) then None else liveTargets c k)
      \<and> (counted c \<longrightarrow> counted c1))"
  have init: "Inv {} c" using assms(1) by (simp add: Inv_def)
  have step: "case targetItems c1 k of None \<Rightarrow> Inv (insert k dn) c1
            | Some a \<Rightarrow> (\<exists>c'. removeTarget diff k a c1 = Some c' \<and> Inv (insert k dn) c')"
    if I: "Inv dn c1" and k: "k \<in> set ro" "k \<notin> dn" for k dn c1
  proof -
    have i1: "invariant D c1" and w1: "wfAllocator D c1" and cs: "collectors c1 = collectors c"
      and rg: "consistentHasher c1 = consistentHasher c" and na: "nextAddr c1 = nextAddr c"
      and ca: "CollectorsAllocatable c1 = CollectorsAllocatable c" and ta: "TimeToAssign c1 = TimeToAssign c"
      and lt: "liveTargets c1 = (\<lambda>k. if k \<in> dn \<and> k \<in> dom (removals diff) then None else liveTargets c k)"
      and cn: "counted c \<longrightarrow> counted c1"
      using I by (simp_all add: Inv_def invariant_def)
    have ltk: "liveTargets c1 k = liveTargets c k" using k(2) by (simp add: lt)
    show ?thesis
    proof (cases "targetItems c1 k")
      case None
      then have "liveTargets c k = None" using ltk by (simp add: liveTargets_def)
      then have "liveTargets c1 = (\<lambda>k'. if k' \<in> insert k dn \<and> k' \<in> dom (removals diff) then None else liveTargets c k')"
        unfolding lt by (auto simp: fun_eq_iff)
      then show ?thesis using None i1 cs rg na ca ta cn by (simp add: Inv_def)
    next
      case (Some a)
      define t where "t = targetItemAt c1 a"
      have ltt: "liveTargets c1 k = Some t" using Some by (simp add: liveTargets_def t_def)
      have own: "CollectorName (targetItemAt c1 a) \<in> dom (collectors c1)"
        using located_owner[OF assms(2) i1 ltt] by (simp add: t_def)
      from removeTarget_effect[OF w1 Some own, of diff] obtain c' where
        run: "removeTarget diff k a c1 = Some c'" and w': "wfAllocator D c'" and cs': "collectors c' = collectors c1"
        and rg': "consistentHasher c' = consistentHasher c1" and na': "nextAddr c' = nextAddr c1"
        and ca': "CollectorsAllocatable c' = CollectorsAllocatable c1" and ta': "TimeToAssign c' = TimeToAssign c1"
        and eff: "if k \<in> dom (removals diff)
          then liveTargets c' = (liveTargets c1)(k := None) \<and>
               liveCollectors c' = bump (CollectorName (targetItemAt c1 a)) (- 1) (liveCollectors c1)
          else c' = c1"
        by blast
      have "Inv (insert k dn) c'"
      proof (cases "k \<in> dom (removals diff)")
        case False
        then have e: "c' = c1" using eff by simp
        have "liveTargets c1 = (\<lambda>k'. if k' \<in> insert k dn \<and> k' \<in> dom (removals diff) then None else liveTargets c k')"
          unfolding lt using False by (auto simp: fun_eq_iff)
        then show ?thesis using e i1 cs rg na ca ta cn by (simp add: Inv_def)
      next
        case True
        then have lt': "liveTargets c' = (liveTargets c1)(k := None)"
          and lc': "liveCollectors c' = bump (CollectorName t) (- 1) (liveCollectors c1)"
          using eff by (simp_all add: t_def)
        have loc: "located D c'"
          using i1 rg' unfolding invariant_def located_def lt' by (auto split: if_splits)
        have lte: "liveTargets c' = (\<lambda>k'. if k' \<in> insert k dn \<and> k' \<in> dom (removals diff) then None else liveTargets c k')"
          unfolding lt' lt using True by (auto simp: fun_eq_iff)
        have fin: "finite (dom (liveTargets c1))" using wf_finite(2)[OF w1] by simp
        have cnt: "counted c \<longrightarrow> counted c'"
        proof
          assume "counted c"
          then have "countedV (liveCollectors c1) (liveTargets c1)" using cn by (simp add: counted_def)
          from countedV_remove[OF this fin ltt] show "counted c'"
            by (simp add: counted_def lt' lc')
        qed
        show ?thesis using w' loc cs cs' rg rg' na na' ca ca' ta ta' lte cnt
          by (simp add: Inv_def invariant_def)
      qed
      then show ?thesis using Some run by simp
    qed
  qed
  from rangeMap_rule[where ks=ro and Inv=Inv and c=c and m=targetItems and body="removeTarget diff",
      OF assms(3) init step]
  show ?thesis unfolding Inv_def by blast
qed

lemma addTargets_loop:
  assumes "invariant D c" and "ring_ok D" and "dom (collectors c) \<noteq> {}" and "distinct ao"
  shows "\<exists>c2. rangeMap ao (\<lambda>_. additions diff) (addTarget D) c = Some c2 \<and> invariant D c2
      \<and> collectors c2 = collectors c \<and> consistentHasher c2 = consistentHasher c
      \<and> CollectorsAllocatable c2 = CollectorsAllocatable c \<and> TimeToAssign c2 = TimeToAssign c
      \<and> ((\<forall>k t. additions diff k = Some t \<longrightarrow> Hash D t = k) \<longrightarrow>
           liveTargets c2 = (\<lambda>k. if k \<in> set ao \<and> k \<notin> dom (targetItems c)
               then map_option (assigned D (the (locateKey D (consistentHasher c) k))) (additions diff k)
               else liveTargets c k)
           \<and> ((\<forall>k t. additions diff k = Some t \<longrightarrow> CollectorName t \<notin> dom (collectors c)) \<and> counted c
                \<longrightarrow> counted c2))"
proof -
  define keyed where "keyed \<longleftrightarrow> (\<forall>k t. additions diff k = Some t \<longrightarrow> Hash D t = k)"
  define unowned where "unowned \<longleftrightarrow> (\<forall>k t. additions diff k = Some t \<longrightarrow> CollectorName t \<notin> dom (collectors c))"
  define F where "F = (\<lambda>dn k. if k \<in> dn \<and> k \<notin> dom (targetItems c)
               then map_option (assigned D (the (locateKey D (consistentHasher c) k))) (additions diff k)
               else liveTargets c k)"
  define Inv where "Inv = (\<lambda>dn c1. invariant D c1
      \<and> collectors c1 = collectors c \<and> consistentHasher c1 = consistentHasher c
      \<and> CollectorsAllocatable c1 = CollectorsAllocatable c \<and> TimeToAssign c1 = TimeToAssign c
      \<and> (keyed \<longrightarrow> liveTargets c1 = F dn \<and> (unowned \<and> counted c \<longrightarrow> counted c1)))"
  have F0: "F {} = liveTargets c" by (simp add: F_def)
  have init: "Inv {} c" using assms(1) by (simp add: Inv_def F0)
  have step: "case additions diff k of None \<Rightarrow> Inv (insert k dn) c1
            | Some t \<Rightarrow> (\<exists>c'. addTarget D k t c1 = Some c' \<and> Inv (insert k dn) c')"
    if I: "Inv dn c1" and k: "k \<in> set ao" "k \<notin> dn" for k dn c1
  proof -
    have i1: "invariant D c1" and w1: "wfAllocator D c1" and l1: "located D c1" and cs: "collectors c1 = collectors c"
      and rg: "consistentHasher c1 = consistentHasher c"
      and ca: "CollectorsAllocatable c1 = CollectorsAllocatable c" and ta: "TimeToAssign c1 = TimeToAssign c"
      and ky: "keyed \<longrightarrow> liveTargets c1 = F dn \<and> (unowned \<and> counted c \<longrightarrow> counted c1)"
      using I by (simp_all add: Inv_def invariant_def)
    have Fk: "F dn k = liveTargets c k" using k(2) by (simp add: F_def)
    have same: "F (insert k dn) = F dn" if "k \<in> dom (targetItems c) \<or> additions diff k = None"
    proof
      fix k' show "F (insert k dn) k' = F dn k'"
        using that by (cases "k' = k") (auto simp: F_def liveTargets_def)
    qed
    show ?thesis
    proof (cases "additions diff k")
      case None
      then show ?thesis using i1 cs rg ca ta ky same by (simp add: Inv_def)
    next
      case (Some t)
      show ?thesis
      proof (cases "k \<in> dom (targetItems c1)")
        case True
        have "keyed \<longrightarrow> F (insert k dn) = F dn"
        proof
          assume keyed
          then have "liveTargets c1 k = liveTargets c k" using ky Fk by simp
          then have "k \<in> dom (targetItems c)" using True
            by (metis dom_liveTargets domIff)
          then show "F (insert k dn) = F dn" using same by simp
        qed
        then have "Inv (insert k dn) c1" using i1 cs rg ca ta ky by (auto simp: Inv_def)
        then show ?thesis using Some True by (simp add: addTarget_def)
      next
        case False
        have ne: "dom (collectors c1) \<noteq> {}" using assms(3) cs by simp
        from ring_owner[OF assms(2) w1 ne, of "Hash D t"] obtain owner where
          o: "locateKey D (consistentHasher c1) (Hash D t) = Some owner" "owner \<in> dom (collectors c1)"
          by blast
        from addTargetToTargetItems_effect[OF w1 o] obtain c' where
          run: "addTargetToTargetItems D t c1 = Some c'" and w': "wfAllocator D c'"
          and cs': "collectors c' = collectors c1" and rg': "consistentHasher c' = consistentHasher c1"
          and lt': "liveTargets c' = (liveTargets c1)(Hash D t \<mapsto> assigned D owner t)"
          and lc': "liveCollectors c' = bump owner 1 (bump (CollectorName t) (- 1) (liveCollectors c1))"
          and ca': "CollectorsAllocatable c' = CollectorsAllocatable c1" and ta': "TimeToAssign c' = TimeToAssign c1"
          by blast
        have cn: "CollectorName (assigned D owner t) = owner" by (simp add: assigned_def)
        have loc: "located D c'"
          using l1 o(1) cn unfolding located_def lt' rg' by (auto split: if_splits)
        have kpart: "liveTargets c' = F (insert k dn) \<and> (unowned \<and> counted c \<longrightarrow> counted c')" if kd: keyed
        proof
          have hk: "Hash D t = k" using kd Some by (simp add: keyed_def)
          have lt1: "liveTargets c1 = F dn" using ky kd by simp
          have kn1: "liveTargets c1 k = None" using False by (simp add: liveTargets_None domIff)
          then have kn: "k \<notin> dom (targetItems c)" using lt1 Fk by (simp add: liveTargets_None domIff)
          have ow: "the (locateKey D (consistentHasher c) k) = owner" using o(1) hk rg by simp
          show "liveTargets c' = F (insert k dn)"
          proof
            fix k' show "liveTargets c' k' = F (insert k dn) k'"
              unfolding lt' hk using lt1 kn Some ow by (cases "k' = k") (auto simp: F_def)
          qed
          show "unowned \<and> counted c \<longrightarrow> counted c'"
          proof
            assume a: "unowned \<and> counted c"
            then have "counted c1" using ky kd by blast
            then have c1: "countedV (liveCollectors c1) (liveTargets c1)" by (simp add: counted_def)
            have fin: "finite (dom (liveTargets c1))" using wf_finite(2)[OF w1] by simp
            have pv: "liveCollectors c1 (CollectorName t) = None"
              using a Some cs by (auto simp: unowned_def liveCollectors_None)
            from countedV_add[OF c1 fin kn1 cn pv] show "counted c'"
              by (simp add: counted_def lt' lc' hk)
          qed
        qed
        have "Inv (insert k dn) c'"
          using w' loc cs cs' rg rg' ca ca' ta ta' kpart by (simp add: Inv_def invariant_def)
        then show ?thesis using Some False run by (simp add: addTarget_def)
      qed
    qed
  qed
  from rangeMap_rule[where ks=ao and Inv=Inv and c=c and m="\<lambda>_. additions diff" and body="addTarget D",
      OF assms(4) init step]
  show ?thesis unfolding Inv_def keyed_def unowned_def F_def by blast
qed

lemma removeCollectors_loop:
  assumes "wfAllocator D c" and "distinct ro" and "\<And>key k. removals diff key = Some k \<Longrightarrow> Name k = key"
  shows "\<exists>c1. rangeMap ro (\<lambda>_. removals diff) removeCollector c = Some c1 \<and> wfAllocator D c1
      \<and> collectors c1 = (\<lambda>n. if n \<in> set ro \<and> n \<in> dom (removals diff) then None else collectors c n)
      \<and> targetItems c1 = targetItems c \<and> targetItemAt c1 = targetItemAt c
      \<and> collectorAt c1 = collectorAt c \<and> nextAddr c1 = nextAddr c
      \<and> CollectorsAllocatable c1 = CollectorsAllocatable c \<and> TimeToAssign c1 = TimeToAssign c"
proof -
  define F where "F = (\<lambda>dn n. if n \<in> dn \<and> n \<in> dom (removals diff) then None else collectors c n)"
  define Inv where "Inv = (\<lambda>dn c1. wfAllocator D c1 \<and> collectors c1 = F dn
      \<and> targetItems c1 = targetItems c \<and> targetItemAt c1 = targetItemAt c
      \<and> collectorAt c1 = collectorAt c \<and> nextAddr c1 = nextAddr c
      \<and> CollectorsAllocatable c1 = CollectorsAllocatable c \<and> TimeToAssign c1 = TimeToAssign c)"
  have init: "Inv {} c" using assms(1) by (simp add: Inv_def F_def)
  have step: "case removals diff key of None \<Rightarrow> Inv (insert key dn) c1
            | Some k \<Rightarrow> (\<exists>c'. removeCollector key k c1 = Some c' \<and> Inv (insert key dn) c')"
    if I: "Inv dn c1" and k: "key \<in> set ro" "key \<notin> dn" for key dn c1
  proof (cases "removals diff key")
    case None
    then have "F (insert key dn) = F dn" by (auto simp: F_def fun_eq_iff)
    then show ?thesis using None I by (simp add: Inv_def)
  next
    case (Some k)
    have nk: "Name k = key" using assms(3) Some by simp
    have w1: "wfAllocator D c1" and cs: "collectors c1 = F dn" using I by (simp_all add: Inv_def)
    from removeCollector_effect[OF w1, of key k] obtain c' where
      run: "removeCollector key k c1 = Some c'" and w': "wfAllocator D c'"
      and cs': "collectors c' = (collectors c1)(Name k := None)"
      and rest: "targetItems c' = targetItems c1" "targetItemAt c' = targetItemAt c1"
        "collectorAt c' = collectorAt c1" "nextAddr c' = nextAddr c1"
        "CollectorsAllocatable c' = CollectorsAllocatable c1" "TimeToAssign c' = TimeToAssign c1"
      by blast
    have "collectors c' = F (insert key dn)"
      unfolding cs' cs nk using Some by (auto simp: F_def fun_eq_iff)
    then have "Inv (insert key dn) c'" using w' rest I by (simp add: Inv_def)
    then show ?thesis using Some run by simp
  qed
  from rangeMap_rule[where ks=ro and Inv=Inv and c=c and m="\<lambda>_. removals diff" and body=removeCollector,
      OF assms(2) init step]
  show ?thesis unfolding Inv_def F_def by blast
qed

lemma insertCollectors_loop:
  assumes "wfAllocator D c" and "distinct ao"
  shows "\<exists>c2. rangeMap ao (\<lambda>_. additions diff) insertCollector c = Some c2 \<and> wfAllocator D c2
      \<and> liveCollectors c2 = (\<lambda>n. if n \<in> addedNames diff (set ao) then Some (NewCollector n) else liveCollectors c n)
      \<and> targetItems c2 = targetItems c \<and> targetItemAt c2 = targetItemAt c
      \<and> nextAddr c \<le> nextAddr c2
      \<and> (\<forall>n p. collectors c2 n = Some p \<longrightarrow> n \<notin> addedNames diff (set ao) \<longrightarrow> collectors c n = Some p)
      \<and> (\<forall>p. p < nextAddr c \<longrightarrow> collectorAt c2 p = collectorAt c p)
      \<and> CollectorsAllocatable c2 = CollectorsAllocatable c \<and> TimeToAssign c2 = TimeToAssign c"
proof -
  define F where "F = (\<lambda>dn n. if n \<in> addedNames diff dn then Some (NewCollector n) else liveCollectors c n)"
  define Inv where "Inv = (\<lambda>dn c2. wfAllocator D c2 \<and> liveCollectors c2 = F dn
      \<and> targetItems c2 = targetItems c \<and> targetItemAt c2 = targetItemAt c
      \<and> nextAddr c \<le> nextAddr c2
      \<and> (\<forall>n p. collectors c2 n = Some p \<longrightarrow> n \<notin> addedNames diff dn \<longrightarrow> collectors c n = Some p)
      \<and> (\<forall>p. p < nextAddr c \<longrightarrow> collectorAt c2 p = collectorAt c p)
      \<and> CollectorsAllocatable c2 = CollectorsAllocatable c \<and> TimeToAssign c2 = TimeToAssign c)"
  have init: "Inv {} c" using assms(1) by (simp add: Inv_def F_def addedNames_def)
  have step: "case additions diff key of None \<Rightarrow> Inv (insert key dn) c1
            | Some i \<Rightarrow> (\<exists>c'. insertCollector key i c1 = Some c' \<and> Inv (insert key dn) c')"
    if I: "Inv dn c1" and k: "key \<in> set ao" "key \<notin> dn" for key dn c1
  proof (cases "additions diff key")
    case None
    then have "addedNames diff (insert key dn) = addedNames diff dn" by (auto simp: addedNames_def)
    then show ?thesis using None I by (simp add: Inv_def F_def)
  next
    case (Some i)
    have an: "addedNames diff (insert key dn) = insert (Name i) (addedNames diff dn)"
      using Some by (auto simp: addedNames_def)
    have w1: "wfAllocator D c1" and lc: "liveCollectors c1 = F dn" and na: "nextAddr c \<le> nextAddr c1"
      and old: "\<And>n p. collectors c1 n = Some p \<Longrightarrow> n \<notin> addedNames diff dn \<Longrightarrow> collectors c n = Some p"
      and objs: "\<And>p. p < nextAddr c \<Longrightarrow> collectorAt c1 p = collectorAt c p"
      using I by (simp_all add: Inv_def)
    let ?c' = "c1\<lparr>collectorAt := (collectorAt c1)(nextAddr c1 := NewCollector (Name i)),
             collectors := (collectors c1)(Name i \<mapsto> nextAddr c1),
             nextAddr := Suc (nextAddr c1),
             consistentHasher := insert (Name i) (consistentHasher c1)\<rparr>"
    have run: "insertCollector key i c1 = Some ?c'" by (simp add: insertCollector_def)
    from insertCollector_effect[OF w1, of key i] run have w': "wfAllocator D ?c'"
      and lc': "liveCollectors ?c' = (liveCollectors c1)(Name i \<mapsto> NewCollector (Name i))"
      by auto
    have "liveCollectors ?c' = F (insert key dn)"
      unfolding lc' lc by (auto simp: F_def fun_eq_iff an)
    moreover have "\<forall>n p. collectors ?c' n = Some p \<longrightarrow> n \<notin> addedNames diff (insert key dn) \<longrightarrow> collectors c n = Some p"
      unfolding an using old by simp
    moreover have "\<forall>p. p < nextAddr c \<longrightarrow> collectorAt ?c' p = collectorAt c p"
      using objs na by simp
    ultimately have "Inv (insert key dn) ?c'" using w' I by (simp add: Inv_def)
    then show ?thesis using Some run by simp
  qed
  from rangeMap_rule[where ks=ao and Inv=Inv and c=c and m="\<lambda>_. additions diff" and body=insertCollector,
      OF assms(2) init step]
  show ?thesis unfolding Inv_def F_def by blast
qed

lemma reallocate_loop:
  assumes "wfAllocator D c" and "ring_ok D" and "dom (collectors c) \<noteq> {}" and "distinct to"
  shows "\<exists>c3. rangeMap to targetItems (reallocate D) c = Some c3 \<and> wfAllocator D c3
      \<and> collectors c3 = collectors c \<and> consistentHasher c3 = consistentHasher c
      \<and> CollectorsAllocatable c3 = CollectorsAllocatable c \<and> TimeToAssign c3 = TimeToAssign c
      \<and> nextAddr c \<le> nextAddr c3
      \<and> liveTargets c3 = (\<lambda>k. if k \<in> set to
            then map_option (assigned D (the (locateKey D (consistentHasher c) k))) (liveTargets c k)
            else liveTargets c k)
      \<and> (\<forall>k a. k \<in> set to \<longrightarrow> targetItems c3 k = Some a \<longrightarrow> nextAddr c \<le> a)
      \<and> (counted c \<longrightarrow> counted c3)"
proof -
  define F where "F = (\<lambda>dn k. if k \<in> dn
            then map_option (assigned D (the (locateKey D (consistentHasher c) k))) (liveTargets c k)
            else liveTargets c k)"
  define Inv where "Inv = (\<lambda>dn c3. wfAllocator D c3
      \<and> collectors c3 = collectors c \<and> consistentHasher c3 = consistentHasher c
      \<and> CollectorsAllocatable c3 = CollectorsAllocatable c \<and> TimeToAssign c3 = TimeToAssign c
      \<and> nextAddr c \<le> nextAddr c3
      \<and> liveTargets c3 = F dn
      \<and> (\<forall>k a. k \<in> dn \<longrightarrow> targetItems c3 k = Some a \<longrightarrow> nextAddr c \<le> a)
      \<and> (counted c \<longrightarrow> counted c3))"
  have init: "Inv {} c" using assms(1) by (simp add: Inv_def F_def)
  have step: "case targetItems c1 k of None \<Rightarrow> Inv (insert k dn) c1
            | Some a \<Rightarrow> (\<exists>c'. reallocate D k a c1 = Some c' \<and> Inv (insert k dn) c')"
    if I: "Inv dn c1" and k: "k \<in> set to" "k \<notin> dn" for k dn c1
  proof -
    have w1: "wfAllocator D c1" and cs: "collectors c1 = collectors c"
      and rg: "consistentHasher c1 = consistentHasher c"
      and ca: "CollectorsAllocatable c1 = CollectorsAllocatable c" and ta: "TimeToAssign c1 = TimeToAssign c"
      and na: "nextAddr c \<le> nextAddr c1" and lt: "liveTargets c1 = F dn"
      and fr: "\<And>k a. k \<in> dn \<Longrightarrow> targetItems c1 k = Some a \<Longrightarrow> nextAddr c \<le> a"
      and cn: "counted c \<longrightarrow> counted c1"
      using I by (simp_all add: Inv_def)
    have Fk: "F dn k = liveTargets c k" using k(2) by (simp add: F_def)
    show ?thesis
    proof (cases "targetItems c1 k")
      case None
      then have "liveTargets c1 k = None" by (simp add: liveTargets_def)
      then have "liveTargets c k = None" using lt Fk by simp
      then have "F (insert k dn) = F dn" by (auto simp: F_def fun_eq_iff)
      moreover have "\<forall>k' a. k' \<in> insert k dn \<longrightarrow> targetItems c1 k' = Some a \<longrightarrow> nextAddr c \<le> a"
        using fr None by auto
      ultimately show ?thesis using None w1 cs rg ca ta na lt cn by (simp add: Inv_def)
    next
      case (Some a)
      define t where "t = targetItemAt c1 a"
      have ltt: "liveTargets c1 k = Some t" using Some by (simp add: liveTargets_def t_def)
      have hk: "Hash D t = k" using wf_Hash[OF w1 ltt] .
      have ltc: "liveTargets c k = Some t" using ltt lt Fk by simp
      have ne: "dom (collectors c1) \<noteq> {}" using assms(3) cs by simp
      from ring_owner[OF assms(2) w1 ne, of "Hash D t"] obtain owner where
        o: "locateKey D (consistentHasher c1) (Hash D t) = Some owner" "owner \<in> dom (collectors c1)"
        by blast
      from addTargetToTargetItems_effect[OF w1 o] obtain c' where
        run: "addTargetToTargetItems D t c1 = Some c'" and w': "wfAllocator D c'"
        and cs': "collectors c' = collectors c1" and rg': "consistentHasher c' = consistentHasher c1"
        and ti': "targetItems c' = (targetItems c1)(Hash D t \<mapsto> nextAddr c1)"
        and na': "nextAddr c' = Suc (nextAddr c1)"
        and lt': "liveTargets c' = (liveTargets c1)(Hash D t \<mapsto> assigned D owner t)"
        and lc': "liveCollectors c' = bump owner 1 (bump (CollectorName t) (- 1) (liveCollectors c1))"
        and ca': "CollectorsAllocatable c' = CollectorsAllocatable c1" and ta': "TimeToAssign c' = TimeToAssign c1"
        by blast
      have ow: "the (locateKey D (consistentHasher c) k) = owner" using o(1) hk rg by simp
      have cnm: "CollectorName (assigned D owner t) = owner" by (simp add: assigned_def)
      have lte: "liveTargets c' = F (insert k dn)"
      proof
        fix k' show "liveTargets c' k' = F (insert k dn) k'"
          unfolding lt' hk lt using ltc ow by (cases "k' = k") (auto simp: F_def)
      qed
      have fr': "\<forall>k' a. k' \<in> insert k dn \<longrightarrow> targetItems c' k' = Some a \<longrightarrow> nextAddr c \<le> a"
        unfolding ti' hk using fr na by auto
      have cnt: "counted c \<longrightarrow> counted c'"
      proof
        assume "counted c"
        then have c1: "countedV (liveCollectors c1) (liveTargets c1)" using cn by (simp add: counted_def)
        have fin: "finite (dom (liveTargets c1))" using wf_finite(2)[OF w1] by simp
        from countedV_reassign[OF c1 fin ltt cnm] show "counted c'"
          by (simp add: counted_def lt' lc' hk)
      qed
      have "Inv (insert k dn) c'"
        using w' cs cs' rg rg' ca ca' ta ta' na na' lte fr' cnt by (simp add: Inv_def)
      then show ?thesis using Some run by (simp add: reallocate_def t_def)
    qed
  qed
  from rangeMap_rule[where ks=to and Inv=Inv and c=c and m=targetItems and body="reallocate D",
      OF assms(4) init step]
  show ?thesis unfolding Inv_def F_def by blast
qed

subsection \<open>SetTargets\<close>

lemma Maps_additions [simp]: "additions (Maps current new) k = (if k \<in> dom current then None else new k)"
  by (simp add: Maps_def)

lemma Maps_removals [simp]: "removals (Maps current new) k = (if k \<in> dom new then None else current k)"
  by (simp add: Maps_def)

lemma dom_Maps_additions: "dom (additions (Maps current new)) = dom new - dom current"
  by (auto simp: Maps_def split: if_splits)

lemma dom_Maps_removals: "dom (removals (Maps current new)) = dom current - dom new"
  by (auto simp: Maps_def split: if_splits)

lemma observeDuration_fields [simp]:
  "consistentHasher (observeDuration m c) = consistentHasher c"
  "collectors (observeDuration m c) = collectors c"
  "targetItems (observeDuration m c) = targetItems c"
  "collectorAt (observeDuration m c) = collectorAt c"
  "targetItemAt (observeDuration m c) = targetItemAt c"
  "nextAddr (observeDuration m c) = nextAddr c"
  "TargetsPerCollector (observeDuration m c) = TargetsPerCollector c"
  "CollectorsAllocatable (observeDuration m c) = CollectorsAllocatable c"
  by (simp_all add: observeDuration_def)

lemma observeDuration_views [simp]:
  "liveTargets (observeDuration m c) = liveTargets c"
  "liveCollectors (observeDuration m c) = liveCollectors c"
  by (simp_all add: liveTargets_def liveCollectors_def)

lemma observeDuration_inv [simp]:
  "wfAllocator D (observeDuration m c) = wfAllocator D c"
  "invariant D (observeDuration m c) = invariant D c"
  "counted (observeDuration m c) = counted c"
  by (simp_all add: wfAllocator_def heap_ok_def invariant_def located_def counted_def)

lemma is_order_distinct: "is_order ks m \<Longrightarrow> distinct ks"
  by (simp add: is_order_def)

lemma is_order_set: "is_order ks m \<Longrightarrow> set ks = dom m"
  by (simp add: is_order_def)

lemma handleTargets_effect:
  assumes "invariant D c" and "ring_ok D" and "dom (collectors c) \<noteq> {}"
    and "is_order ro (targetItems c)" and "is_order ao (additions (Maps (liveTargets c) targets))"
  shows "\<exists>c'. handleTargets D (Maps (liveTargets c) targets) ro ao c = Some c' \<and> invariant D c'
      \<and> collectors c' = collectors c \<and> consistentHasher c' = consistentHasher c
      \<and> CollectorsAllocatable c' = CollectorsAllocatable c \<and> TimeToAssign c' = TimeToAssign c
      \<and> (keyedByHash D targets \<longrightarrow>
           liveTargets c' = targetsAfter D (consistentHasher c) (liveTargets c) targets
           \<and> (unowned c targets \<and> counted c \<longrightarrow> counted c'))"
proof -
  let ?d = "Maps (liveTargets c) targets"
  have w: "wfAllocator D c" using assms(1) by (simp add: invariant_def)
  have ne: "consistentHasher c \<noteq> {}" using assms(3) wf_ring[OF w] by simp
  from removeTargets_loop[OF assms(1,2) is_order_distinct[OF assms(4)], of ?d] obtain c1 where
    r1: "rangeMap ro targetItems (removeTarget ?d) c = Some c1" and i1: "invariant D c1"
    and cs1: "collectors c1 = collectors c" and rg1: "consistentHasher c1 = consistentHasher c"
    and ca1: "CollectorsAllocatable c1 = CollectorsAllocatable c" and ta1: "TimeToAssign c1 = TimeToAssign c"
    and lt1: "liveTargets c1 = (\<lambda>k. if k \<in> set ro \<and> k \<in> dom (removals ?d) then None else liveTargets c k)"
    and cn1: "counted c \<longrightarrow> counted c1"
    by blast
  have ne1: "dom (collectors c1) \<noteq> {}" using assms(3) cs1 by simp
  from addTargets_loop[OF i1 assms(2) ne1 is_order_distinct[OF assms(5)], of ?d] obtain c2 where
    r2: "rangeMap ao (\<lambda>_. additions ?d) (addTarget D) c1 = Some c2" and i2: "invariant D c2"
    and cs2: "collectors c2 = collectors c1" and rg2: "consistentHasher c2 = consistentHasher c1"
    and ca2: "CollectorsAllocatable c2 = CollectorsAllocatable c1" and ta2: "TimeToAssign c2 = TimeToAssign c1"
    and ky: "(\<forall>k t. additions ?d k = Some t \<longrightarrow> Hash D t = k) \<longrightarrow>
           liveTargets c2 = (\<lambda>k. if k \<in> set ao \<and> k \<notin> dom (targetItems c1)
               then map_option (assigned D (the (locateKey D (consistentHasher c1) k))) (additions ?d k)
               else liveTargets c1 k)
           \<and> ((\<forall>k t. additions ?d k = Some t \<longrightarrow> CollectorName t \<notin> dom (collectors c1)) \<and> counted c1
                \<longrightarrow> counted c2)"
    by blast
  have run: "handleTargets D ?d ro ao c = Some c2" using r1 r2 by (simp add: handleTargets_def)
  have sro: "set ro = dom (targetItems c)" using is_order_set[OF assms(4)] .
  have sao: "set ao = dom targets - dom (targetItems c)"
    using is_order_set[OF assms(5)] by (simp add: dom_Maps_additions)
  have kpart: "liveTargets c2 = targetsAfter D (consistentHasher c) (liveTargets c) targets
           \<and> (unowned c targets \<and> counted c \<longrightarrow> counted c2)" if kd: "keyedByHash D targets"
  proof
    have ka: "\<forall>k t. additions ?d k = Some t \<longrightarrow> Hash D t = k"
      using kd by (auto simp: keyedByHash_def split: if_splits)
    have lt2: "liveTargets c2 = (\<lambda>k. if k \<in> set ao \<and> k \<notin> dom (targetItems c1)
               then map_option (assigned D (the (locateKey D (consistentHasher c1) k))) (additions ?d k)
               else liveTargets c1 k)"
      using ky ka by blast
    have d1: "dom (targetItems c1) = dom (liveTargets c1)" by simp
    show "liveTargets c2 = targetsAfter D (consistentHasher c) (liveTargets c) targets"
    proof
      fix k
      show "liveTargets c2 k = targetsAfter D (consistentHasher c) (liveTargets c) targets k"
        unfolding lt2 d1 unfolding lt1 sro sao rg1 targetsAfter_def using ne
        by (auto simp: dom_Maps_removals domIff liveTargets_None)
    qed
    show "unowned c targets \<and> counted c \<longrightarrow> counted c2"
    proof
      assume a: "unowned c targets \<and> counted c"
      then have "\<forall>k t. additions ?d k = Some t \<longrightarrow> CollectorName t \<notin> dom (collectors c1)"
        unfolding cs1 by (auto simp: unowned_def split: if_splits)
      moreover have "counted c1" using a cn1 by simp
      ultimately show "counted c2" using ky ka by blast
    qed
  qed
  show ?thesis using run i2 cs1 cs2 rg1 rg2 ca1 ca2 ta1 ta2 kpart by simp
qed

lemma targetsAfter_same:
  assumes "dom targets = dom LT"
  shows "targetsAfter D R LT targets = LT"
proof (cases "R = {}")
  case True
  then show ?thesis by (simp add: targetsAfter_def)
next
  case False
  show ?thesis
  proof
    fix k show "targetsAfter D R LT targets k = LT k"
      using assms False by (cases "targets k") (auto simp: targetsAfter_def domIff)
  qed
qed

lemma SetTargets_effect:
  assumes "invariant D c" and "ring_ok D"
    and "is_order ro (targetItems c)" and "is_order ao (additions (Maps (liveTargets c) targets))"
  shows "\<exists>c'. SetTargets D targets ro ao c = Some c' \<and> invariant D c'
      \<and> collectors c' = collectors c \<and> consistentHasher c' = consistentHasher c
      \<and> CollectorsAllocatable c' = CollectorsAllocatable c
      \<and> (keyedByHash D targets \<longrightarrow>
           liveTargets c' = targetsAfter D (consistentHasher c) (liveTargets c) targets
           \<and> (unowned c targets \<and> counted c \<longrightarrow> counted c'))"
proof -
  have w: "wfAllocator D c" using assms(1) by (simp add: invariant_def)
  let ?d = "Maps (liveTargets c) targets"
  show ?thesis
  proof (cases "dom (collectors c) = {}")
    case True
    then have "consistentHasher c = {}" using wf_ring[OF w] by simp
    then show ?thesis using True assms(1) by (simp add: SetTargets_def targetsAfter_def)
  next
    case False
    show ?thesis
    proof (cases "dom (additions ?d) \<noteq> {} \<or> dom (removals ?d) \<noteq> {}")
      case True
      from handleTargets_effect[OF assms(1,2) False assms(3,4)] obtain c' where
        "handleTargets D ?d ro ao c = Some c'" "invariant D c'"
        "collectors c' = collectors c" "consistentHasher c' = consistentHasher c"
        "CollectorsAllocatable c' = CollectorsAllocatable c"
        "keyedByHash D targets \<longrightarrow>
           liveTargets c' = targetsAfter D (consistentHasher c) (liveTargets c) targets
           \<and> (unowned c targets \<and> counted c \<longrightarrow> counted c')"
        by blast
      then show ?thesis using False True by (simp add: SetTargets_def Let_def)
    next
      case nodiff: False
      then have "dom targets = dom (liveTargets c)"
        unfolding dom_Maps_additions dom_Maps_removals by blast
      then have "targetsAfter D (consistentHasher c) (liveTargets c) targets = liveTargets c"
        by (rule targetsAfter_same)
      then show ?thesis using False nodiff assms(1) by (simp add: SetTargets_def Let_def)
    qed
  qed
qed

subsection \<open>SetCollectors\<close>

lemma CollectorsAllocatable_update_views [simp]:
  "liveTargets (c\<lparr>CollectorsAllocatable := x\<rparr>) = liveTargets c"
  "liveCollectors (c\<lparr>CollectorsAllocatable := x\<rparr>) = liveCollectors c"
  by (simp_all add: liveTargets_def liveCollectors_def)

lemma CollectorsAllocatable_update_inv [simp]:
  "wfAllocator D (c\<lparr>CollectorsAllocatable := x\<rparr>) = wfAllocator D c"
  "invariant D (c\<lparr>CollectorsAllocatable := x\<rparr>) = invariant D c"
  "counted (c\<lparr>CollectorsAllocatable := x\<rparr>) = counted c"
  by (simp_all add: wfAllocator_def heap_ok_def invariant_def located_def counted_def)

lemma wf_liveName: "wfAllocator D c \<Longrightarrow> liveCollectors c n = Some col \<Longrightarrow> Name col = n"
  unfolding liveCollectors_Some by (auto dest: wf_Name)

lemma handleCollectors_effect:
  assumes "wfAllocator D c" and "ring_ok D" and "dom cols \<noteq> {}"
    and "is_order ro (removals (Maps (liveCollectors c) cols))"
    and "is_order ao (additions (Maps (liveCollectors c) cols))"
    and "is_order to (targetItems c)"
  shows "\<exists>c'. handleCollectors D (Maps (liveCollectors c) cols) ro ao to c = Some c' \<and> invariant D c'
      \<and> consistentHasher c' = ringAfter (dom (collectors c)) cols
      \<and> liveTargets c' = reassigned D (ringAfter (dom (collectors c)) cols) (liveTargets c)
      \<and> CollectorsAllocatable c' = CollectorsAllocatable c \<and> TimeToAssign c' = TimeToAssign c
      \<and> nextAddr c \<le> nextAddr c'
      \<and> (\<forall>k a. targetItems c' k = Some a \<longrightarrow> nextAddr c \<le> a)
      \<and> (keyedByName cols \<and> invariant D c \<and> counted c \<longrightarrow> counted c')"
proof -
  let ?d = "Maps (liveCollectors c) cols"
  let ?R = "dom (collectors c)"
  have nm: "\<And>key k. removals ?d key = Some k \<Longrightarrow> Name k = key"
    using wf_liveName[OF assms(1)] by (auto split: if_splits)
  from removeCollectors_loop[OF assms(1) is_order_distinct[OF assms(4)] nm] obtain c1 where
    r1: "rangeMap ro (\<lambda>_. removals ?d) removeCollector c = Some c1" and w1: "wfAllocator D c1"
    and cs1: "collectors c1 = (\<lambda>n. if n \<in> set ro \<and> n \<in> dom (removals ?d) then None else collectors c n)"
    and ti1: "targetItems c1 = targetItems c" and ta1: "targetItemAt c1 = targetItemAt c"
    and co1: "collectorAt c1 = collectorAt c" and na1: "nextAddr c1 = nextAddr c"
    and ca1: "CollectorsAllocatable c1 = CollectorsAllocatable c" and tt1: "TimeToAssign c1 = TimeToAssign c"
    by blast
  from insertCollectors_loop[OF w1 is_order_distinct[OF assms(5)], of ?d] obtain c2 where
    r2: "rangeMap ao (\<lambda>_. additions ?d) insertCollector c1 = Some c2" and w2: "wfAllocator D c2"
    and lc2: "liveCollectors c2 = (\<lambda>n. if n \<in> addedNames ?d (set ao) then Some (NewCollector n) else liveCollectors c1 n)"
    and ti2: "targetItems c2 = targetItems c1" and ta2: "targetItemAt c2 = targetItemAt c1"
    and na2: "nextAddr c1 \<le> nextAddr c2"
    and ca2: "CollectorsAllocatable c2 = CollectorsAllocatable c1" and tt2: "TimeToAssign c2 = TimeToAssign c1"
    by blast
  have sro: "set ro = ?R - dom cols"
    using is_order_set[OF assms(4)] by (simp add: dom_Maps_removals)
  have sao: "set ao = dom cols - ?R"
    using is_order_set[OF assms(5)] by (simp add: dom_Maps_additions)
  have sto: "set to = dom (targetItems c)" using is_order_set[OF assms(6)] .
  have added: "addedNames ?d (set ao) = {n. \<exists>k i. cols k = Some i \<and> k \<notin> ?R \<and> Name i = n}"
    unfolding sao by (auto simp: addedNames_def domIff)
  have lc1: "liveCollectors c1 = (\<lambda>n. if n \<in> dom cols then liveCollectors c n else None)"
    unfolding liveCollectors_def cs1 co1 sro by (auto simp: fun_eq_iff dom_Maps_removals domIff)
  have d2: "dom (collectors c2) = ringAfter ?R cols"
  proof -
    have a: "dom (liveCollectors c2) = addedNames ?d (set ao) \<union> dom (liveCollectors c1)"
      unfolding lc2 by (auto simp del: dom_liveCollectors split: if_splits)
    have "dom (liveCollectors c1) = dom (liveCollectors c) \<inter> dom cols"
      unfolding lc1 by (auto simp del: dom_liveCollectors split: if_splits)
    then have b: "dom (liveCollectors c1) = ?R \<inter> dom cols" by simp
    have "dom (liveCollectors c2) = ringAfter ?R cols"
      unfolding a b added ringAfter_def using assms(3) by auto
    then show ?thesis by simp
  qed
  have ne2: "dom (collectors c2) \<noteq> {}"
  proof -
    from assms(3) obtain k where "k \<in> dom cols" by blast
    then obtain i where ki: "cols k = Some i" by blast
    have "k \<in> ringAfter ?R cols \<or> Name i \<in> ringAfter ?R cols"
      using ki assms(3) by (auto simp: ringAfter_def)
    then show ?thesis unfolding d2 by auto
  qed
  have rg2: "consistentHasher c2 = ringAfter ?R cols" using wf_ring[OF w2] d2 by simp
  have lt2: "liveTargets c2 = liveTargets c"
    by (rule liveTargets_frame) (simp_all add: ti1 ti2 ta1 ta2)
  have sto2: "distinct to" using is_order_distinct[OF assms(6)] .
  from reallocate_loop[OF w2 assms(2) ne2 sto2] obtain c3 where
    r3: "rangeMap to targetItems (reallocate D) c2 = Some c3" and w3: "wfAllocator D c3"
    and cs3: "collectors c3 = collectors c2" and rg3: "consistentHasher c3 = consistentHasher c2"
    and ca3: "CollectorsAllocatable c3 = CollectorsAllocatable c2" and tt3: "TimeToAssign c3 = TimeToAssign c2"
    and na3: "nextAddr c2 \<le> nextAddr c3"
    and lt3: "liveTargets c3 = (\<lambda>k. if k \<in> set to
            then map_option (assigned D (the (locateKey D (consistentHasher c2) k))) (liveTargets c2 k)
            else liveTargets c2 k)"
    and fr3: "\<forall>k a. k \<in> set to \<longrightarrow> targetItems c3 k = Some a \<longrightarrow> nextAddr c2 \<le> a"
    and cn3: "counted c2 \<longrightarrow> counted c3"
    by blast
  have run: "handleCollectors D ?d ro ao to c = Some c3"
    using r1 r2 r3 by (simp add: handleCollectors_def)
  have lt3': "liveTargets c3 = reassigned D (ringAfter ?R cols) (liveTargets c)"
    unfolding lt3 lt2 rg2 sto reassigned_def by (auto simp: fun_eq_iff liveTargets_def domIff)
  have loc3: "located D c3"
    unfolding located_def
  proof (intro allI impI)
    fix k t' assume a: "liveTargets c3 k = Some t'"
    from ring_owner[OF assms(2) w2 ne2, of k] obtain owner where
      o: "locateKey D (consistentHasher c2) k = Some owner" by blast
    have "CollectorName t' = owner"
      using a o unfolding lt3' reassigned_def rg2[symmetric] by (auto simp: assigned_def)
    then show "locateKey D (consistentHasher c3) k = Some (CollectorName t')"
      using o rg3 by simp
  qed
  have fresh: "\<forall>k a. targetItems c3 k = Some a \<longrightarrow> nextAddr c \<le> a"
  proof (intro allI impI)
    fix k a assume a: "targetItems c3 k = Some a"
    then have "k \<in> dom (liveTargets c3)" by (simp add: domIff)
    then have "k \<in> set to" unfolding lt3' reassigned_def sto by (auto simp: domIff liveTargets_None)
    then have "nextAddr c2 \<le> a" using fr3 a by blast
    then show "nextAddr c \<le> a" using na1 na2 by simp
  qed
  have cnt: "keyedByName cols \<and> invariant D c \<and> counted c \<longrightarrow> counted c3"
  proof
    assume a: "keyedByName cols \<and> invariant D c \<and> counted c"
    have "countedV (liveCollectors c2) (liveTargets c)"
      unfolding countedV_def
    proof (intro allI impI)
      fix n col assume l: "liveCollectors c2 n = Some col"
      show "NumTargets col = int (card (owned (liveTargets c) n))"
      proof (cases "n \<in> addedNames ?d (set ao)")
        case True
        then have col: "col = NewCollector n" using l lc2 by simp
        from True obtain k i where ki: "cols k = Some i" "k \<notin> ?R" "Name i = n"
          unfolding added by blast
        then have "n \<notin> ?R" using a by (auto simp: keyedByName_def)
        then have "owned (liveTargets c) n = {}"
          using located_owner[OF assms(2)] a by (auto simp: owned_def)
        then show ?thesis using col by (simp add: NewCollector_def)
      next
        case False
        then have "liveCollectors c n = Some col" using l lc2 lc1 by (auto split: if_splits)
        then show ?thesis using a by (simp add: counted_def countedV_def)
      qed
    qed
    then have "counted c2" by (simp add: counted_def lt2)
    then show "counted c3" using cn3 by simp
  qed
  show ?thesis
    using run w3 loc3 rg3 rg2 lt3' ca1 ca2 ca3 tt1 tt2 tt3 na1 na2 na3 fresh cnt
    by (simp add: invariant_def)
qed

lemma ringAfter_same: "dom cols = R \<Longrightarrow> ringAfter R cols = R"
  by (auto simp: ringAfter_def)

lemma ringAfter_members:
  "dom cols \<noteq> {} \<Longrightarrow>
   ringAfter R cols = (R \<inter> dom cols) \<union> {Name i |k i. cols k = Some i \<and> k \<notin> R}"
  by (auto simp: ringAfter_def)

lemma ringAfter_keyed: "keyedByName cols \<Longrightarrow> dom cols \<noteq> {} \<Longrightarrow> ringAfter R cols = dom cols"
  by (auto simp: ringAfter_def keyedByName_def)

lemma SetCollectors_effect:
  assumes "invariant D c" and "ring_ok D"
    and "is_order ro (removals (Maps (liveCollectors c) cols))"
    and "is_order ao (additions (Maps (liveCollectors c) cols))"
    and "is_order to (targetItems c)"
  shows "\<exists>c'. SetCollectors D cols ro ao to c = Some c' \<and> invariant D c'
      \<and> consistentHasher c' = ringAfter (dom (collectors c)) cols
      \<and> liveTargets c' = (if dom cols = {} \<or> dom cols = dom (collectors c) then liveTargets c
                           else reassigned D (ringAfter (dom (collectors c)) cols) (liveTargets c))
      \<and> nextAddr c \<le> nextAddr c'
      \<and> (dom cols \<noteq> {} \<and> dom cols \<noteq> dom (collectors c) \<longrightarrow>
            (\<forall>k a. targetItems c' k = Some a \<longrightarrow> nextAddr c \<le> a))
      \<and> (keyedByName cols \<and> counted c \<longrightarrow> counted c')"
proof -
  define c0 where "c0 = c\<lparr>CollectorsAllocatable :=
                     (CollectorsAllocatable c)(consistentHashingStrategyName \<mapsto> int (card (dom cols)))\<rparr>"
  have i0: "invariant D c0" using assms(1) by (simp add: c0_def)
  have w0: "wfAllocator D c0" using i0 by (simp add: invariant_def)
  have rgc: "consistentHasher c = dom (collectors c)" using assms(1) wf_ring by (auto simp: invariant_def)
  have v0: "liveCollectors c0 = liveCollectors c" "liveTargets c0 = liveTargets c"
    "collectors c0 = collectors c" "targetItems c0 = targetItems c" "nextAddr c0 = nextAddr c"
    "consistentHasher c0 = consistentHasher c" "counted c0 = counted c"
    by (simp_all add: c0_def)
  let ?d = "Maps (liveCollectors c0) cols"
  have diff: "(dom (additions ?d) \<noteq> {} \<or> dom (removals ?d) \<noteq> {}) \<longleftrightarrow> dom cols \<noteq> dom (collectors c)"
    unfolding dom_Maps_additions dom_Maps_removals v0 by auto
  show ?thesis
  proof (cases "dom cols = {}")
    case True
    then have "SetCollectors D cols ro ao to c = Some (observeDuration ''SetCollectors'' c0)"
      by (simp add: SetCollectors_def c0_def)
    then show ?thesis using True i0 v0 rgc by (simp add: ringAfter_def)
  next
    case False
    show ?thesis
    proof (cases "dom cols = dom (collectors c)")
      case True
      then have "SetCollectors D cols ro ao to c = Some (observeDuration ''SetCollectors'' c0)"
        using False diff by (simp add: SetCollectors_def c0_def Let_def)
      then show ?thesis using True i0 v0 rgc by (simp add: ringAfter_same)
    next
      case ne: False
      have o: "is_order ro (removals ?d)" "is_order ao (additions ?d)" "is_order to (targetItems c0)"
        using assms(3,4,5) by (simp_all add: v0)
      from handleCollectors_effect[OF w0 assms(2) False o] obtain c' where
        run: "handleCollectors D ?d ro ao to c0 = Some c'" and i': "invariant D c'"
        and rg: "consistentHasher c' = ringAfter (dom (collectors c0)) cols"
        and lt: "liveTargets c' = reassigned D (ringAfter (dom (collectors c0)) cols) (liveTargets c0)"
        and na: "nextAddr c0 \<le> nextAddr c'"
        and fr: "\<forall>k a. targetItems c' k = Some a \<longrightarrow> nextAddr c0 \<le> a"
        and cn: "keyedByName cols \<and> invariant D c0 \<and> counted c0 \<longrightarrow> counted c'"
        by blast
      have "SetCollectors D cols ro ao to c = Some (observeDuration ''SetCollectors'' c')"
        using False ne diff run by (simp add: SetCollectors_def c0_def Let_def)
      then show ?thesis using False ne i' rg lt na fr cn i0 v0 by simp
    qed
  qed
qed

subsection \<open>Reachable states\<close>

lemma invariant_initial: "invariant D newConsistentHashingAllocator"
  by (simp add: invariant_def wfAllocator_def heap_ok_def located_def liveTargets_def
      newConsistentHashingAllocator_def)

lemma counted_initial: "counted newConsistentHashingAllocator"
  by (simp add: counted_def countedV_def liveCollectors_def newConsistentHashingAllocator_def)

lemma run_effect:
  assumes "invariant D c" and "ring_ok D" and "orders_ok c x"
  shows "\<exists>c'. run D x c = Some c' \<and> invariant D c' \<and> (contract D c x \<and> counted c \<longrightarrow> counted c')"
proof (cases x)
  case (SetTargetsCall targets ro ao)
  then have o: "is_order ro (targetItems c)" "is_order ao (additions (Maps (liveTargets c) targets))"
    using assms(3) by simp_all
  from SetTargets_effect[OF assms(1,2) o] show ?thesis using SetTargetsCall by auto
next
  case (SetCollectorsCall cols ro ao to)
  then have o: "is_order ro (removals (Maps (liveCollectors c) cols))"
    "is_order ao (additions (Maps (liveCollectors c) cols))" "is_order to (targetItems c)"
    using assms(3) by simp_all
  from SetCollectors_effect[OF assms(1,2) o] show ?thesis using SetCollectorsCall by auto
qed

lemma reachable_invariant:
  assumes "ring_ok D" and "reachable D P c"
  shows "invariant D c"
  using assms(2)
proof (induction rule: reachable.induct)
  case initial
  show ?case by (rule invariant_initial)
next
  case (step c x c')
  from run_effect[OF step.IH assms(1) step.hyps(2)] step.hyps(4) show ?case by auto
qed

lemma reachable_counted:
  assumes "ring_ok D" and "reachable D (contract D) c"
  shows "counted c"
  using assms(2)
proof (induction rule: reachable.induct)
  case initial
  show ?case by (rule counted_initial)
next
  case (step c x c')
  have "invariant D c" using assms(1) step.hyps(1) by (rule reachable_invariant)
  from run_effect[OF this assms(1) step.hyps(2)] step.hyps(3,4) step.IH show ?case by auto
qed

lemma runs_reachable:
  assumes "reachable D P c" and "runs_ok D P xs c" and "runs D xs c = Some c'"
  shows "reachable D P c'"
  using assms
proof (induction xs arbitrary: c)
  case Nil
  then show ?case by simp
next
  case (Cons x xs)
  from Cons.prems(2) obtain c1 where r: "run D x c = Some c1" and o: "orders_ok c x" and p: "P c x"
    and ok: "runs_ok D P xs c1"
    by (auto split: option.splits)
  have "reachable D P c1"
    using Cons.prems(1) o p r by (rule reachable.step)
  then show ?case using Cons.IH ok Cons.prems(3) r by simp
qed

lemma addTargetToTargetItems_no_collectors:
  assumes "dom (collectors s) = {}"
  shows "addTargetToTargetItems D t s = None"
proof -
  have r: "releasePrevious t s = Some s" using assms by (simp add: releasePrevious_def domIff)
  have "assignOwner D t s = None"
    using assms by (simp add: assignOwner_def Let_def split: option.splits)
  then show ?thesis using r by (simp add: addTargetToTargetItems_def)
qed

subsection \<open>Two runs on the same inputs\<close>

lemma dom_targetsAfter: "R \<noteq> {} \<Longrightarrow> dom (targetsAfter D R LT targets) = dom targets"
  by (auto simp: targetsAfter_def domIff split: if_splits)

lemma invariant_ring: "invariant D c \<Longrightarrow> consistentHasher c = dom (collectors c)"
  unfolding invariant_def using wf_ring by blast

lemma step_same:
  assumes "ring_ok D" and "invariant D c1" and "invariant D c2"
    and "liveTargets c1 = liveTargets c2" and "consistentHasher c1 = consistentHasher c2"
    and "sameInput x y" and "orders_ok c1 x" and "orders_ok c2 y" and "keyedCall D c1 x"
  shows "\<exists>c1' c2'. run D x c1 = Some c1' \<and> run D y c2 = Some c2' \<and>
           invariant D c1' \<and> invariant D c2' \<and>
           liveTargets c1' = liveTargets c2' \<and> consistentHasher c1' = consistentHasher c2'"
proof -
  have d: "dom (collectors c1) = dom (collectors c2)"
    using invariant_ring[OF assms(2)] invariant_ring[OF assms(3)] assms(5) by simp
  show ?thesis
  proof (cases x)
    case x: (SetTargetsCall targets ro ao)
    then obtain ro' ao' where y: "y = SetTargetsCall targets ro' ao'"
      using assms(6) by (cases y) auto
    have k: "keyedByHash D targets" using assms(9) x by simp
    have o1: "is_order ro (targetItems c1)" "is_order ao (additions (Maps (liveTargets c1) targets))"
      using assms(7) x by simp_all
    have o2: "is_order ro' (targetItems c2)" "is_order ao' (additions (Maps (liveTargets c2) targets))"
      using assms(8) y by simp_all
    from SetTargets_effect[OF assms(2,1) o1] k obtain c1' where
      r1: "SetTargets D targets ro ao c1 = Some c1'" and i1: "invariant D c1'"
      and g1: "consistentHasher c1' = consistentHasher c1"
      and l1: "liveTargets c1' = targetsAfter D (consistentHasher c1) (liveTargets c1) targets"
      by blast
    from SetTargets_effect[OF assms(3,1) o2] k obtain c2' where
      r2: "SetTargets D targets ro' ao' c2 = Some c2'" and i2: "invariant D c2'"
      and g2: "consistentHasher c2' = consistentHasher c2"
      and l2: "liveTargets c2' = targetsAfter D (consistentHasher c2) (liveTargets c2) targets"
      by blast
    show ?thesis using x y r1 r2 i1 i2 g1 g2 l1 l2 assms(4,5) by simp
  next
    case x: (SetCollectorsCall cols ro ao to)
    then obtain ro' ao' to' where y: "y = SetCollectorsCall cols ro' ao' to'"
      using assms(6) by (cases y) auto
    have o1: "is_order ro (removals (Maps (liveCollectors c1) cols))"
      "is_order ao (additions (Maps (liveCollectors c1) cols))" "is_order to (targetItems c1)"
      using assms(7) x by simp_all
    have o2: "is_order ro' (removals (Maps (liveCollectors c2) cols))"
      "is_order ao' (additions (Maps (liveCollectors c2) cols))" "is_order to' (targetItems c2)"
      using assms(8) y by simp_all
    from SetCollectors_effect[OF assms(2,1) o1] obtain c1' where
      r1: "SetCollectors D cols ro ao to c1 = Some c1'" and i1: "invariant D c1'"
      and g1: "consistentHasher c1' = ringAfter (dom (collectors c1)) cols"
      and l1: "liveTargets c1' = (if dom cols = {} \<or> dom cols = dom (collectors c1) then liveTargets c1
                           else reassigned D (ringAfter (dom (collectors c1)) cols) (liveTargets c1))"
      by blast
    from SetCollectors_effect[OF assms(3,1) o2] obtain c2' where
      r2: "SetCollectors D cols ro' ao' to' c2 = Some c2'" and i2: "invariant D c2'"
      and g2: "consistentHasher c2' = ringAfter (dom (collectors c2)) cols"
      and l2: "liveTargets c2' = (if dom cols = {} \<or> dom cols = dom (collectors c2) then liveTargets c2
                           else reassigned D (ringAfter (dom (collectors c2)) cols) (liveTargets c2))"
      by blast
    show ?thesis using x y r1 r2 i1 i2 g1 g2 l1 l2 assms(4) d by simp
  qed
qed

lemma runs_same:
  assumes "ring_ok D" and "list_all2 sameInput xs ys"
    and "invariant D c1" and "invariant D c2"
    and "liveTargets c1 = liveTargets c2" and "consistentHasher c1 = consistentHasher c2"
    and "runs_ok D (keyedCall D) xs c1" and "runs_ok D (keyedCall D) ys c2"
  shows "\<exists>c1' c2'. runs D xs c1 = Some c1' \<and> runs D ys c2 = Some c2' \<and>
           liveTargets c1' = liveTargets c2' \<and> consistentHasher c1' = consistentHasher c2' \<and>
           invariant D c1' \<and> invariant D c2'"
  using assms(2-)
proof (induction xs ys arbitrary: c1 c2 rule: list_all2_induct)
  case Nil
  then show ?case by simp
next
  case (Cons x xs y ys)
  have ox: "orders_ok c1 x" "keyedCall D c1 x" and oy: "orders_ok c2 y"
    using Cons.prems(5,6) by simp_all
  from step_same[OF assms(1) Cons.prems(1,2,3,4) Cons.hyps(1) ox(1) oy ox(2)] obtain c1' c2' where
    r: "run D x c1 = Some c1'" "run D y c2 = Some c2'" and i: "invariant D c1'" "invariant D c2'"
    and e: "liveTargets c1' = liveTargets c2'" "consistentHasher c1' = consistentHasher c2'"
    by blast
  have ok: "runs_ok D (keyedCall D) xs c1'" "runs_ok D (keyedCall D) ys c2'"
    using Cons.prems(5,6) r by simp_all
  from Cons.IH[OF i e ok] r show ?case by simp
qed

subsection \<open>Objects and snapshots\<close>

lemma assignOwner_objects:
  assumes "assignOwner D t c = Some c'" and "locateKey D (consistentHasher c) (Hash D t) = Some owner"
    and "collectors c owner \<noteq> Some p"
  shows "collectorAt c' p = collectorAt c p"
proof (cases "collectors c owner")
  case None
  then show ?thesis using assms(1,2) by (simp add: assignOwner_def Let_def)
next
  case (Some q)
  then have "p \<noteq> q" using assms(3) by auto
  then show ?thesis using assms(1,2) Some
    by (auto simp: assignOwner_def Let_def reportNumTargets_def)
qed





subsection \<open>The examples, evaluated\<close>

lemma liveTargets_apply: "liveTargets c k = map_option (targetItemAt c) (targetItems c k)"
  by (simp add: liveTargets_def)

lemma liveCollectors_apply: "liveCollectors c n = map_option (collectorAt c) (collectors c n)"
  by (simp add: liveCollectors_def)

lemma Maps_additions_empty: "additions (Maps current new) = Map.empty \<longleftrightarrow> dom new \<subseteq> dom current"
  unfolding dom_eq_empty_conv[symmetric] dom_Maps_additions by blast

lemma Maps_removals_empty: "removals (Maps current new) = Map.empty \<longleftrightarrow> dom current \<subseteq> dom new"
  unfolding dom_eq_empty_conv[symmetric] dom_Maps_removals by blast

lemmas eval_simps = Maps_additions_empty Maps_removals_empty
  SetCollectors_def SetTargets_def handleCollectors_def handleTargets_def
  dom_Maps_additions dom_Maps_removals insert_Diff_if insert_commute
  liveCollectors_apply liveTargets_apply removeTarget_def addTarget_def addTargetToTargetItems_def
  releasePrevious_def assignOwner_def reportNumTargets_def setTargetsPerCollector_def addNumTargets_def
  storeTargetItem_def assigned_def removeCollector_def insertCollector_def reallocate_def
  observeDuration_def NewCollector_def Hash_def newConsistentHashingAllocator_def exampleRing_def
  exampleTarget_def consistentHashingStrategyName_def is_order_def Let_def
  keyedByHash_def keyedByName_def unowned_def any_call_def

lemma ring_ok_exampleRing: "ring_ok exampleRing"
  by (auto simp: ring_ok_def exampleRing_def)

lemma exampleCalls_ok: "runs_ok exampleRing any_call exampleCalls newConsistentHashingAllocator"
  by (simp add: exampleCalls_def eval_simps)

lemma exampleCalls_run:
  "runs exampleRing exampleCalls newConsistentHashingAllocator = Some exampleState"
  by (simp add: exampleState_def exampleCalls_def eval_simps)

lemma exampleState_reachable: "reachable exampleRing any_call exampleState"
  using reachable.initial exampleCalls_ok exampleCalls_run by (rule runs_reachable)

lemma exampleCall_ok: "orders_ok exampleState exampleCall"
  by (simp add: exampleState_def exampleCalls_def exampleCall_def eval_simps)

lemma exampleCalls_contract:
  "runs_ok exampleRing (contract exampleRing) exampleCalls newConsistentHashingAllocator"
  by (simp add: exampleCalls_def eval_simps)

lemma exampleState_reachable_contract: "reachable exampleRing (contract exampleRing) exampleState"
  using reachable.initial exampleCalls_contract exampleCalls_run by (rule runs_reachable)





lemma exampleCall_run:
  "map_option (\<lambda>c'. (dom (collectors c'), dom (targetItems c'),
       map_option CollectorName (liveTargets c' ''j1u''), map_option CollectorName (liveTargets c' ''j22u'')))
     (SetCollectors exampleRing [''B'' \<mapsto> NewCollector ''B''] [''A''] [] [''j1u'', ''j22u''] exampleState)
   = Some ({''B''}, {''j1u'', ''j22u''}, Some ''B'', Some ''B'')"
  by (simp add: exampleState_def exampleCalls_def eval_simps)

lemma exampleState_targets:
  "map_option CollectorName (liveTargets exampleState ''j1u'') = Some ''B''"
  "map_option CollectorName (liveTargets exampleState ''j22u'') = Some ''A''"
  "dom (collectors exampleState) = {''A'', ''B''}"
  "dom (targetItems exampleState) = {''j1u'', ''j22u''}"
  by (simp_all add: exampleState_def exampleCalls_def eval_simps)

lemma exampleCall_fresh:
  "map_option (\<lambda>c'. (targetItems c', nextAddr exampleState))
     (SetCollectors exampleRing [''B'' \<mapsto> NewCollector ''B''] [''A''] [] [''j1u'', ''j22u''] exampleState)
   = Some ([''j1u'' \<mapsto> 6, ''j22u'' \<mapsto> 7], 6)"
  by (simp add: exampleState_def exampleCalls_def eval_simps eval_nat_numeral)

lemma exampleState_removal_order:
  "orders_ok exampleState (SetTargetsCall [''j1u'' \<mapsto> exampleTarget ''j1'' []] [''j1u'', ''j22u''] [])"
  by (simp add: exampleState_def exampleCalls_def eval_simps)

lemma exampleCalls_keyed:
  "runs_ok exampleRing (keyedCall exampleRing) exampleCalls newConsistentHashingAllocator"
  "runs_ok exampleRing (keyedCall exampleRing) exampleCallsOtherOrder newConsistentHashingAllocator"
  by (simp_all add: exampleCalls_def exampleCallsOtherOrder_def eval_simps)

lemma exampleCalls_same: "list_all2 sameInput exampleCalls exampleCallsOtherOrder"
  by (simp add: exampleCalls_def exampleCallsOtherOrder_def)

lemma orphanState_wf: "wfAllocator exampleRing orphanState"
  unfolding wfAllocator_def heap_ok_def
  by (auto simp: orphanState_def eval_simps split: if_splits)

lemma orphanState_arises:
  "(case runs exampleRing (butlast removalCalls) newConsistentHashingAllocator of
      None \<Rightarrow> None
    | Some c \<Rightarrow>
        (let c0 = c\<lparr>CollectorsAllocatable := (CollectorsAllocatable c)(consistentHashingStrategyName \<mapsto> 1)\<rparr>;
             d = Maps (liveCollectors c0) [''B'' \<mapsto> NewCollector ''B'']
         in case rangeMap [''A''] (\<lambda>_. removals d) removeCollector c0 of
              None \<Rightarrow> None
            | Some c1 \<Rightarrow> rangeMap [''B''] (\<lambda>_. additions d) insertCollector c1))
   = Some orphanState"
  by (simp add: removalCalls_def orphanState_def eval_simps eval_nat_numeral fun_upd_twist)

lemma orphanState_eval:
  "collectors orphanState (CollectorName (targetItemAt orphanState 1)) = None"
  "releasePrevious (targetItemAt orphanState 1) orphanState = Some orphanState"
  "map_option (\<lambda>c'. (NumTargets (collectorAt c' 0), NumTargets (collectorAt c' 2), collectors c'))
     (addTargetToTargetItems exampleRing (targetItemAt orphanState 1) orphanState)
     = Some (1, 1, [''B'' \<mapsto> 2])"
  by (simp_all add: orphanState_def eval_simps)


lemma exampleState_objects:
  "targetItems exampleState = [''j1u'' \<mapsto> 4, ''j22u'' \<mapsto> 5]" "nextAddr exampleState = 6"
  by (simp_all add: exampleState_def exampleCalls_def eval_simps eval_nat_numeral)

section \<open>The claims\<close>

text \<open>
  C1. The claim as amended: in every state reached by calls that keep the interface's
  contract (a target map keyed by its targets' hashes whose targets name no live
  collector as owner, a collector map keyed by its collectors' names), the sum of
  NumTargets over the live collectors is the number of live targets.
\<close>

theorem conservation:
  assumes "ring_ok D" and "reachable D (contract D) c"
  shows "sumNumTargets c = int (card (dom (targetItems c)))"
proof -
  have i: "invariant D c" using assms by (rule reachable_invariant)
  have w: "wfAllocator D c" using i by (simp add: invariant_def)
  have cn: "countedV (liveCollectors c) (liveTargets c)"
    using reachable_counted[OF assms] by (simp add: counted_def)
  have f1: "finite (dom (liveCollectors c))" and f2: "finite (dom (liveTargets c))"
    using wf_finite[OF w] by simp_all
  have own: "\<And>k t. liveTargets c k = Some t \<Longrightarrow> CollectorName t \<in> dom (liveCollectors c)"
    using located_owner[OF assms(1) i] by simp
  have "sumNumTargets c = (\<Sum>n\<in>dom (liveCollectors c). NumTargets (the (liveCollectors c n)))"
    unfolding sumNumTargets_def by (rule sum.cong) (auto simp: liveCollectors_def)
  also have "\<dots> = int (card (dom (liveTargets c)))"
    using cn f1 f2 own by (rule countedV_sum)
  finally show ?thesis by simp
qed

theorem conservation_witness:
  "ring_ok exampleRing \<and> reachable exampleRing (contract exampleRing) exampleState \<and>
   sumNumTargets exampleState = int (card (dom (targetItems exampleState))) \<and>
   dom (targetItems exampleState) = {''j1u'', ''j22u''}"
  using conservation[OF ring_ok_exampleRing exampleState_reachable_contract]
    ring_ok_exampleRing exampleState_reachable_contract exampleState_targets(4)
  by blast

theorem conservation_counterexample:
  "runs_ok exampleRing any_call preownedCalls newConsistentHashingAllocator \<and>
   map_option (\<lambda>c. (sumNumTargets c, card (dom (targetItems c))))
     (runs exampleRing preownedCalls newConsistentHashingAllocator) = Some (0, 1) \<and>
   runs_ok exampleRing any_call sharedHashCalls newConsistentHashingAllocator \<and>
   map_option (\<lambda>c. (sumNumTargets c, card (dom (targetItems c))))
     (runs exampleRing sharedHashCalls newConsistentHashingAllocator) = Some (2, 1) \<and>
   runs_ok exampleRing any_call misnamedCalls newConsistentHashingAllocator \<and>
   map_option (\<lambda>c. (sumNumTargets c, card (dom (targetItems c))))
     (runs exampleRing misnamedCalls newConsistentHashingAllocator) = Some (0, 1)"
  by (simp add: preownedCalls_def sharedHashCalls_def misnamedCalls_def sumNumTargets_def eval_simps)

text \<open>
  C2. In every state that calls of SetTargets and SetCollectors reach, the CollectorName
  of every live target is a key of the collector map. A SetCollectors call from such a
  state returns; if a collector R of the state before is no longer live after it, the
  target map has the same keys as before, every target is the same target (job, URL and
  labels) with an owner that is live and is not R.
\<close>

theorem no_orphaned_ownership:
  assumes "ring_ok D" and "reachable D any_call c"
  shows "(\<forall>k t. liveTargets c k = Some t \<longrightarrow> CollectorName t \<in> dom (collectors c)) \<and>
         (\<forall>cols ro ao to R.
            orders_ok c (SetCollectorsCall cols ro ao to) \<and> R \<in> dom (collectors c) \<longrightarrow>
            (\<exists>c'. SetCollectors D cols ro ao to c = Some c' \<and>
                  (R \<notin> dom (collectors c') \<longrightarrow>
                     dom (targetItems c') = dom (targetItems c) \<and>
                     (\<forall>k t. liveTargets c k = Some t \<longrightarrow>
                        (\<exists>t'. liveTargets c' k = Some t' \<and> JobName t' = JobName t \<and>
                              TargetURL t' = TargetURL t \<and> Label t' = Label t \<and>
                              CollectorName t' \<in> dom (collectors c') \<and> CollectorName t' \<noteq> R)))))"
proof -
  have i: "invariant D c" using assms by (rule reachable_invariant)
  have rg: "consistentHasher c = dom (collectors c)" using i wf_ring by (auto simp: invariant_def)
  have a: "\<forall>k t. liveTargets c k = Some t \<longrightarrow> CollectorName t \<in> dom (collectors c)"
    using located_owner[OF assms(1) i] by blast
  have b: "\<exists>c'. SetCollectors D cols ro ao to c = Some c' \<and>
                  (R \<notin> dom (collectors c') \<longrightarrow>
                     dom (targetItems c') = dom (targetItems c) \<and>
                     (\<forall>k t. liveTargets c k = Some t \<longrightarrow>
                        (\<exists>t'. liveTargets c' k = Some t' \<and> JobName t' = JobName t \<and>
                              TargetURL t' = TargetURL t \<and> Label t' = Label t \<and>
                              CollectorName t' \<in> dom (collectors c') \<and> CollectorName t' \<noteq> R)))"
    if o: "orders_ok c (SetCollectorsCall cols ro ao to)" and R: "R \<in> dom (collectors c)"
    for cols ro ao to R
  proof -
    have os: "is_order ro (removals (Maps (liveCollectors c) cols))"
      "is_order ao (additions (Maps (liveCollectors c) cols))" "is_order to (targetItems c)"
      using o by simp_all
    from SetCollectors_effect[OF i assms(1) os] obtain c' where
      run: "SetCollectors D cols ro ao to c = Some c'" and i': "invariant D c'"
      and rg': "consistentHasher c' = ringAfter (dom (collectors c)) cols"
      and lt': "liveTargets c' = (if dom cols = {} \<or> dom cols = dom (collectors c) then liveTargets c
                           else reassigned D (ringAfter (dom (collectors c)) cols) (liveTargets c))"
      by blast
    have d': "consistentHasher c' = dom (collectors c')" using i' wf_ring by (auto simp: invariant_def)
    have own': "\<And>k t. liveTargets c' k = Some t \<Longrightarrow> CollectorName t \<in> dom (collectors c')"
      using located_owner[OF assms(1) i'] by blast
    have "dom (targetItems c') = dom (targetItems c) \<and>
                     (\<forall>k t. liveTargets c k = Some t \<longrightarrow>
                        (\<exists>t'. liveTargets c' k = Some t' \<and> JobName t' = JobName t \<and>
                              TargetURL t' = TargetURL t \<and> Label t' = Label t \<and>
                              CollectorName t' \<in> dom (collectors c') \<and> CollectorName t' \<noteq> R))"
      if gone: "R \<notin> dom (collectors c')"
    proof -
      have ch: "\<not> (dom cols = {} \<or> dom cols = dom (collectors c))"
      proof
        assume "dom cols = {} \<or> dom cols = dom (collectors c)"
        then have "ringAfter (dom (collectors c)) cols = dom (collectors c)"
          by (auto simp: ringAfter_def)
        then show False using gone R rg' d' by simp
      qed
      then have lt: "liveTargets c' = reassigned D (ringAfter (dom (collectors c)) cols) (liveTargets c)"
        using lt' by simp
      have "dom (liveTargets c') = dom (liveTargets c)"
        unfolding lt reassigned_def by (auto simp del: dom_liveTargets)
      then have dm: "dom (targetItems c') = dom (targetItems c)" by simp
      have "\<exists>t'. liveTargets c' k = Some t' \<and> JobName t' = JobName t \<and>
                              TargetURL t' = TargetURL t \<and> Label t' = Label t \<and>
                              CollectorName t' \<in> dom (collectors c') \<and> CollectorName t' \<noteq> R"
        if t: "liveTargets c k = Some t" for k t
      proof -
        define t' where "t' = assigned D (the (locateKey D (ringAfter (dom (collectors c)) cols) k)) t"
        have l: "liveTargets c' k = Some t'" using t by (simp add: lt reassigned_def t'_def)
        have "CollectorName t' \<in> dom (collectors c')" using own'[OF l] .
        then have "CollectorName t' \<noteq> R" using gone by auto
        then show ?thesis using l own'[OF l] by (auto simp: t'_def assigned_def)
      qed
      then show ?thesis using dm by blast
    qed
    then show ?thesis using run by blast
  qed
  show ?thesis using a b by blast
qed

theorem no_orphaned_ownership_witness:
  "ring_ok exampleRing \<and> reachable exampleRing any_call exampleState \<and>
   map_option CollectorName (liveTargets exampleState ''j22u'') = Some ''A'' \<and>
   ''A'' \<in> dom (collectors exampleState) \<and>
   orders_ok exampleState (SetCollectorsCall [''B'' \<mapsto> NewCollector ''B''] [''A''] [] [''j1u'', ''j22u'']) \<and>
   (\<exists>c'. SetCollectors exampleRing [''B'' \<mapsto> NewCollector ''B''] [''A''] [] [''j1u'', ''j22u''] exampleState = Some c' \<and>
         ''A'' \<notin> dom (collectors c') \<and> dom (targetItems c') = dom (targetItems exampleState) \<and>
         (\<exists>t'. liveTargets c' ''j22u'' = Some t' \<and> CollectorName t' \<in> dom (collectors c') \<and>
               CollectorName t' \<noteq> ''A''))"
proof -
  obtain t where t: "liveTargets exampleState ''j22u'' = Some t"
    using exampleState_targets(2) by blast
  have A: "''A'' \<in> dom (collectors exampleState)" by (simp add: exampleState_targets)
  have o: "orders_ok exampleState (SetCollectorsCall [''B'' \<mapsto> NewCollector ''B''] [''A''] [] [''j1u'', ''j22u''])"
    using exampleCall_ok by (simp add: exampleCall_def)
  from no_orphaned_ownership[OF ring_ok_exampleRing exampleState_reachable] o A
  obtain c' where c': "SetCollectors exampleRing [''B'' \<mapsto> NewCollector ''B''] [''A''] [] [''j1u'', ''j22u''] exampleState = Some c'"
    and imp: "''A'' \<notin> dom (collectors c') \<longrightarrow>
                     dom (targetItems c') = dom (targetItems exampleState) \<and>
                     (\<forall>k t. liveTargets exampleState k = Some t \<longrightarrow>
                        (\<exists>t'. liveTargets c' k = Some t' \<and> JobName t' = JobName t \<and>
                              TargetURL t' = TargetURL t \<and> Label t' = Label t \<and>
                              CollectorName t' \<in> dom (collectors c') \<and> CollectorName t' \<noteq> ''A''))"
    by blast
  have gone: "''A'' \<notin> dom (collectors c')" using exampleCall_run c' by auto
  show ?thesis
    using ring_ok_exampleRing exampleState_reachable exampleState_targets(2) A o c' gone imp t
    by blast
qed

text \<open>
  C3. In every state whose collector map is empty, and for every input map, SetTargets
  returns, and it leaves the target map, the target objects, the collector map and the
  collector objects (so every NumTargets) as they were; TargetItems() gives the same
  result after the call as before it.
\<close>

theorem SetTargets_no_collectors:
  assumes "dom (collectors c) = {}"
  shows "\<exists>c'. SetTargets D targets ro ao c = Some c' \<and>
           targetItems c' = targetItems c \<and> targetItemAt c' = targetItemAt c \<and>
           collectors c' = collectors c \<and> collectorAt c' = collectorAt c \<and>
           consistentHasher c' = consistentHasher c \<and>
           (\<forall>ks. TargetItems ks c' = TargetItems ks c)"
  using assms by (simp add: SetTargets_def observeDuration_def TargetItems_def)

theorem SetTargets_no_collectors_witness:
  "dom (collectors newConsistentHashingAllocator) = {} \<and>
   (\<exists>c'. SetTargets exampleRing [''j1u'' \<mapsto> exampleTarget ''j1'' []] [] [''j1u'']
           newConsistentHashingAllocator = Some c' \<and>
         targetItems c' = targetItems newConsistentHashingAllocator \<and>
         targetItemAt c' = targetItemAt newConsistentHashingAllocator \<and>
         collectors c' = collectors newConsistentHashingAllocator \<and>
         collectorAt c' = collectorAt newConsistentHashingAllocator \<and>
         consistentHasher c' = consistentHasher newConsistentHashingAllocator \<and>
         (\<forall>ks. TargetItems ks c' = TargetItems ks newConsistentHashingAllocator))"
proof -
  have e: "dom (collectors newConsistentHashingAllocator) = {}"
    by (simp add: newConsistentHashingAllocator_def)
  show ?thesis
    using e SetTargets_no_collectors[OF e, of exampleRing "[''j1u'' \<mapsto> exampleTarget ''j1'' []]" "[]" "[''j1u'']"]
    by simp
qed

text \<open>
  C4. The claim as amended: addTargetToTargetItems first releases the previous owner and
  then, in the state the release leaves, computes the ring owner and assigns. In a
  well-formed state with a live collector it returns. When the target's previous owner
  is still in the collector map, the release decrements that collector's NumTargets by
  one; when it is no longer in the map, the release changes nothing and the call writes
  no collector object but the new owner's. In all, the count of a live collector changes
  by minus one if it is the previous owner and by plus one if it is the new owner.
\<close>

theorem addTargetToTargetItems_counts:
  assumes "ring_ok D" and "wfAllocator D c" and "dom (collectors c) \<noteq> {}"
  shows "\<exists>c1 c' owner.
           releasePrevious t c = Some c1 \<and>
           locateKey D (consistentHasher c1) (Hash D t) = Some owner \<and>
           assignOwner D t c1 = Some c' \<and>
           addTargetToTargetItems D t c = Some c' \<and>
           (\<forall>p. collectors c (CollectorName t) = Some p \<longrightarrow>
              NumTargets (collectorAt c1 p) = NumTargets (collectorAt c p) - 1) \<and>
           (collectors c (CollectorName t) = None \<longrightarrow>
              c1 = c \<and> (\<forall>p. collectors c owner \<noteq> Some p \<longrightarrow> collectorAt c' p = collectorAt c p)) \<and>
           (\<forall>n col. liveCollectors c n = Some col \<longrightarrow>
              (\<exists>col'. liveCollectors c' n = Some col' \<and>
                 NumTargets col' = NumTargets col - (if n = CollectorName t then 1 else 0)
                                                  + (if n = owner then 1 else 0)))"
proof -
  from releasePrevious_effect[OF assms(2), of t] obtain c1 where
    r: "releasePrevious t c = Some c1" and w1: "wfAllocator D c1"
    and cs1: "collectors c1 = collectors c"
    and lc1: "liveCollectors c1 = bump (CollectorName t) (- 1) (liveCollectors c)"
    by blast
  have ne1: "dom (collectors c1) \<noteq> {}" using assms(3) cs1 by simp
  from ring_owner[OF assms(1) w1 ne1, of "Hash D t"] obtain owner where
    o: "locateKey D (consistentHasher c1) (Hash D t) = Some owner" "owner \<in> dom (collectors c1)"
    by blast
  from assignOwner_effect[OF w1 o] obtain c' where
    a: "assignOwner D t c1 = Some c'" and lc': "liveCollectors c' = bump owner 1 (liveCollectors c1)"
    by blast
  have run: "addTargetToTargetItems D t c = Some c'"
    using r a by (simp add: addTargetToTargetItems_def)
  have live: "NumTargets (collectorAt c1 p) = NumTargets (collectorAt c p) - 1"
    if p: "collectors c (CollectorName t) = Some p" for p
  proof -
    have "Some (collectorAt c1 p) = liveCollectors c1 (CollectorName t)"
      using p cs1 by (simp add: liveCollectors_def)
    also have "\<dots> = Some ((collectorAt c p)\<lparr>NumTargets := NumTargets (collectorAt c p) + (- 1)\<rparr>)"
      unfolding lc1 using p by (simp add: bump_apply liveCollectors_def)
    finally have "collectorAt c1 p = (collectorAt c p)\<lparr>NumTargets := NumTargets (collectorAt c p) + (- 1)\<rparr>"
      by simp
    then have "NumTargets (collectorAt c1 p) = NumTargets (collectorAt c p) + (- 1)"
      by (rule ssubst) simp
    then show ?thesis by simp
  qed
  have dead: "c1 = c \<and> (\<forall>p. collectors c owner \<noteq> Some p \<longrightarrow> collectorAt c' p = collectorAt c p)"
    if n: "collectors c (CollectorName t) = None"
  proof -
    have "c1 = c" using n r by (simp add: releasePrevious_def)
    then show ?thesis using a o(1) assignOwner_objects by blast
  qed
  have counts: "\<exists>col'. liveCollectors c' n = Some col' \<and>
                 NumTargets col' = NumTargets col - (if n = CollectorName t then 1 else 0)
                                                  + (if n = owner then 1 else 0)"
    if "liveCollectors c n = Some col" for n col
    using that unfolding lc' lc1 by (auto simp: bump_apply)
  have "releasePrevious t c = Some c1 \<and>
           locateKey D (consistentHasher c1) (Hash D t) = Some owner \<and>
           assignOwner D t c1 = Some c' \<and>
           addTargetToTargetItems D t c = Some c' \<and>
           (\<forall>p. collectors c (CollectorName t) = Some p \<longrightarrow>
              NumTargets (collectorAt c1 p) = NumTargets (collectorAt c p) - 1) \<and>
           (collectors c (CollectorName t) = None \<longrightarrow>
              c1 = c \<and> (\<forall>p. collectors c owner \<noteq> Some p \<longrightarrow> collectorAt c' p = collectorAt c p)) \<and>
           (\<forall>n col. liveCollectors c n = Some col \<longrightarrow>
              (\<exists>col'. liveCollectors c' n = Some col' \<and>
                 NumTargets col' = NumTargets col - (if n = CollectorName t then 1 else 0)
                                                  + (if n = owner then 1 else 0)))"
    using r o(1) a run live dead counts by (intro conjI allI impI) blast+
  then show ?thesis by (intro exI)
qed

theorem addTargetToTargetItems_counts_witness:
  "ring_ok exampleRing \<and> wfAllocator exampleRing orphanState \<and> dom (collectors orphanState) \<noteq> {} \<and>
   collectors orphanState (CollectorName (targetItemAt orphanState 1)) = None \<and>
   (\<exists>c' owner. addTargetToTargetItems exampleRing (targetItemAt orphanState 1) orphanState = Some c' \<and>
      locateKey exampleRing (consistentHasher orphanState) (Hash exampleRing (targetItemAt orphanState 1)) = Some owner \<and>
      releasePrevious (targetItemAt orphanState 1) orphanState = Some orphanState \<and>
      (\<forall>p. collectors orphanState owner \<noteq> Some p \<longrightarrow> collectorAt c' p = collectorAt orphanState p))"
proof -
  have n: "dom (collectors orphanState) \<noteq> {}" by (simp add: orphanState_def)
  have d: "collectors orphanState (CollectorName (targetItemAt orphanState 1)) = None"
    by (rule orphanState_eval(1))
  from addTargetToTargetItems_counts[OF ring_ok_exampleRing orphanState_wf n, of "targetItemAt orphanState 1"]
  obtain c1 c' owner where
    f1: "releasePrevious (targetItemAt orphanState 1) orphanState = Some c1"
    and f2: "locateKey exampleRing (consistentHasher c1) (Hash exampleRing (targetItemAt orphanState 1)) = Some owner"
    and f3: "addTargetToTargetItems exampleRing (targetItemAt orphanState 1) orphanState = Some c'"
    and f4: "collectors orphanState (CollectorName (targetItemAt orphanState 1)) = None \<longrightarrow>
         c1 = orphanState \<and>
         (\<forall>p. collectors orphanState owner \<noteq> Some p \<longrightarrow> collectorAt c' p = collectorAt orphanState p)"
    by (elim exE conjE)
  have e: "c1 = orphanState"
    and g: "\<forall>p. collectors orphanState owner \<noteq> Some p \<longrightarrow> collectorAt c' p = collectorAt orphanState p"
    using f4 d by blast+
  have "addTargetToTargetItems exampleRing (targetItemAt orphanState 1) orphanState = Some c' \<and>
      locateKey exampleRing (consistentHasher orphanState) (Hash exampleRing (targetItemAt orphanState 1)) = Some owner \<and>
      releasePrevious (targetItemAt orphanState 1) orphanState = Some orphanState \<and>
      (\<forall>p. collectors orphanState owner \<noteq> Some p \<longrightarrow> collectorAt c' p = collectorAt orphanState p)"
    using f1 f2 f3 g e by simp
  then show ?thesis using ring_ok_exampleRing orphanState_wf n d by blast
qed

theorem addTargetToTargetItems_counts_counterexample:
  "collectors orphanState (CollectorName (targetItemAt orphanState 1)) = None \<and>
   NumTargets (collectorAt orphanState 0) = 1 \<and>
   releasePrevious (targetItemAt orphanState 1) orphanState = Some orphanState \<and>
   map_option (\<lambda>c'. (NumTargets (collectorAt c' 0), NumTargets (collectorAt c' 2), collectors c'))
     (addTargetToTargetItems exampleRing (targetItemAt orphanState 1) orphanState)
     = Some (1, 1, [''B'' \<mapsto> 2]) \<and>
   runs_ok exampleRing any_call removalCalls newConsistentHashingAllocator \<and>
   map_option (\<lambda>c. (collectors c ''A'', NumTargets (collectorAt c 0)))
     (runs exampleRing (butlast removalCalls) newConsistentHashingAllocator) = Some (Some 0, 1) \<and>
   map_option (\<lambda>c. (collectors c ''A'', NumTargets (collectorAt c 0), map_option CollectorName (liveTargets c ''j1u'')))
     (runs exampleRing removalCalls newConsistentHashingAllocator) = Some (None, 1, Some ''B'')"
proof -
  have "NumTargets (collectorAt orphanState 0) = 1" by (simp add: orphanState_def)
  moreover have "runs_ok exampleRing any_call removalCalls newConsistentHashingAllocator"
    "map_option (\<lambda>c. (collectors c ''A'', NumTargets (collectorAt c 0)))
       (runs exampleRing (butlast removalCalls) newConsistentHashingAllocator) = Some (Some 0, 1)"
    "map_option (\<lambda>c. (collectors c ''A'', NumTargets (collectorAt c 0), map_option CollectorName (liveTargets c ''j1u'')))
       (runs exampleRing removalCalls newConsistentHashingAllocator) = Some (None, 1, Some ''B'')"
    by (simp_all add: removalCalls_def eval_simps)
  ultimately show ?thesis using orphanState_eval by blast
qed

text \<open>
  C5. The claim as amended: a SetCollectors call from a reachable state with an input
  map keyed by its collectors' names returns. If the map is not empty, the keys of the
  collector map, and the members of the ring, are after the call exactly the keys of the
  input map. If the map is empty, the call returns at its guard: the collector map, the
  ring, the target map and the objects of the collectors and of the targets are as they
  were.
\<close>

theorem SetCollectors_replaces_collectors:
  assumes "ring_ok D" and "reachable D any_call c"
    and "orders_ok c (SetCollectorsCall cols ro ao to)" and "keyedByName cols"
  shows "\<exists>c'. SetCollectors D cols ro ao to c = Some c' \<and>
           (dom cols \<noteq> {} \<longrightarrow> dom (collectors c') = dom cols \<and> consistentHasher c' = dom cols) \<and>
           (dom cols = {} \<longrightarrow> collectors c' = collectors c \<and> collectorAt c' = collectorAt c \<and>
              consistentHasher c' = consistentHasher c \<and> targetItems c' = targetItems c \<and>
              targetItemAt c' = targetItemAt c)"
proof (cases "dom cols = {}")
  case True
  then show ?thesis by (simp add: SetCollectors_def)
next
  case False
  have i: "invariant D c" using assms(1,2) by (rule reachable_invariant)
  have os: "is_order ro (removals (Maps (liveCollectors c) cols))"
    "is_order ao (additions (Maps (liveCollectors c) cols))" "is_order to (targetItems c)"
    using assms(3) by simp_all
  from SetCollectors_effect[OF i assms(1) os] obtain c' where
    run: "SetCollectors D cols ro ao to c = Some c'" and i': "invariant D c'"
    and rg: "consistentHasher c' = ringAfter (dom (collectors c)) cols"
    by blast
  have "consistentHasher c' = dom (collectors c')" using i' by (rule invariant_ring)
  then show ?thesis using False run rg ringAfter_keyed[OF assms(4) False] by simp
qed

theorem SetCollectors_replaces_collectors_witness:
  "ring_ok exampleRing \<and> reachable exampleRing any_call exampleState \<and>
   orders_ok exampleState (SetCollectorsCall [''B'' \<mapsto> NewCollector ''B''] [''A''] [] [''j1u'', ''j22u'']) \<and>
   keyedByName [''B'' \<mapsto> NewCollector ''B''] \<and> dom [''B'' \<mapsto> NewCollector ''B''] \<noteq> {} \<and>
   (\<exists>c'. SetCollectors exampleRing [''B'' \<mapsto> NewCollector ''B''] [''A''] [] [''j1u'', ''j22u''] exampleState = Some c' \<and>
         dom (collectors c') = dom [''B'' \<mapsto> NewCollector ''B''] \<and>
         consistentHasher c' = dom [''B'' \<mapsto> NewCollector ''B''])"
proof -
  have o: "orders_ok exampleState (SetCollectorsCall [''B'' \<mapsto> NewCollector ''B''] [''A''] [] [''j1u'', ''j22u''])"
    using exampleCall_ok by (simp add: exampleCall_def)
  have d: "dom [''B'' \<mapsto> NewCollector ''B''] \<noteq> {}" by simp
  have k: "keyedByName [''B'' \<mapsto> NewCollector ''B'']"
    by (simp add: keyedByName_def NewCollector_def)
  from SetCollectors_replaces_collectors[OF ring_ok_exampleRing exampleState_reachable o k]
    ring_ok_exampleRing exampleState_reachable o d k
  show ?thesis by blast
qed

theorem SetCollectors_replaces_collectors_counterexample:
  "reachable exampleRing any_call exampleState \<and>
   orders_ok exampleState (SetCollectorsCall Map.empty [''A'', ''B''] [] [''j1u'', ''j22u'']) \<and>
   map_option (\<lambda>c'. (dom (collectors c'), consistentHasher c'))
     (SetCollectors exampleRing Map.empty [''A'', ''B''] [] [''j1u'', ''j22u''] exampleState)
     = Some ({''A'', ''B''}, {''A'', ''B''}) \<and>
   orders_ok newConsistentHashingAllocator (SetCollectorsCall [''x'' \<mapsto> NewCollector ''A''] [] [''x''] []) \<and>
   map_option (\<lambda>c'. (dom (collectors c'), consistentHasher c'))
     (SetCollectors exampleRing [''x'' \<mapsto> NewCollector ''A''] [] [''x''] [] newConsistentHashingAllocator)
     = Some ({''A''}, {''A''})"
proof -
  have "orders_ok exampleState (SetCollectorsCall Map.empty [''A'', ''B''] [] [''j1u'', ''j22u''])"
    "map_option (\<lambda>c'. (dom (collectors c'), consistentHasher c'))
     (SetCollectors exampleRing Map.empty [''A'', ''B''] [] [''j1u'', ''j22u''] exampleState)
     = Some ({''A'', ''B''}, {''A'', ''B''})"
    by (simp_all add: exampleState_def exampleCalls_def eval_simps)
  moreover have "orders_ok newConsistentHashingAllocator (SetCollectorsCall [''x'' \<mapsto> NewCollector ''A''] [] [''x''] [])"
    "map_option (\<lambda>c'. (dom (collectors c'), consistentHasher c'))
     (SetCollectors exampleRing [''x'' \<mapsto> NewCollector ''A''] [] [''x''] [] newConsistentHashingAllocator)
     = Some ({''A''}, {''A''})"
    by (simp_all add: eval_simps)
  ultimately show ?thesis using exampleState_reachable by blast
qed

text \<open>
  C6. The claim as amended: from a reachable state, a SetTargets call with a map keyed
  by its targets' hashes returns; when there is a live collector, the diff of the same
  map against the state it leaves is empty; and a second call with the same map, under
  any iteration order, returns a state that differs from that one in nothing but the
  latency observation every SetTargets call records: the target map, the collector map,
  the objects (so every NumTargets), the ring and both gauges are as they were.
\<close>

theorem SetTargets_twice:
  assumes "ring_ok D" and "reachable D any_call c" and "keyedByHash D targets"
    and "orders_ok c (SetTargetsCall targets ro ao)"
  shows "\<exists>c1. SetTargets D targets ro ao c = Some c1 \<and>
           (dom (collectors c) \<noteq> {} \<longrightarrow>
              dom (additions (Maps (liveTargets c1) targets)) = {} \<and>
              dom (removals (Maps (liveTargets c1) targets)) = {}) \<and>
           (\<forall>ro' ao'. \<exists>c2. SetTargets D targets ro' ao' c1 = Some c2 \<and>
              targetItems c2 = targetItems c1 \<and> targetItemAt c2 = targetItemAt c1 \<and>
              collectors c2 = collectors c1 \<and> collectorAt c2 = collectorAt c1 \<and>
              consistentHasher c2 = consistentHasher c1 \<and> nextAddr c2 = nextAddr c1 \<and>
              TargetsPerCollector c2 = TargetsPerCollector c1 \<and>
              CollectorsAllocatable c2 = CollectorsAllocatable c1 \<and>
              TimeToAssign c2 = (TimeToAssign c1)((''SetTargets'', consistentHashingStrategyName) :=
                 Suc (TimeToAssign c1 (''SetTargets'', consistentHashingStrategyName))))"
proof -
  have i: "invariant D c" using assms(1,2) by (rule reachable_invariant)
  have rg: "consistentHasher c = dom (collectors c)" using i wf_ring by (auto simp: invariant_def)
  have os: "is_order ro (targetItems c)" "is_order ao (additions (Maps (liveTargets c) targets))"
    using assms(4) by simp_all
  from SetTargets_effect[OF i assms(1) os] assms(3) obtain c1 where
    run: "SetTargets D targets ro ao c = Some c1" and cs: "collectors c1 = collectors c"
    and lt: "liveTargets c1 = targetsAfter D (consistentHasher c) (liveTargets c) targets"
    by blast
  have same: "dom (liveTargets c1) = dom targets" if "dom (collectors c) \<noteq> {}"
    unfolding lt using that rg by (simp add: dom_targetsAfter del: dom_liveTargets)
  have nodiff: "dom (additions (Maps (liveTargets c1) targets)) = {} \<and>
              dom (removals (Maps (liveTargets c1) targets)) = {}" if "dom (collectors c) \<noteq> {}"
    unfolding dom_Maps_additions dom_Maps_removals using same[OF that] by (simp del: dom_liveTargets)
  have second: "SetTargets D targets ro' ao' c1 = Some (observeDuration ''SetTargets'' c1)" for ro' ao'
  proof (cases "dom (collectors c) = {}")
    case True
    then show ?thesis using cs by (simp add: SetTargets_def)
  next
    case False
    then show ?thesis using cs nodiff[OF False] by (simp add: SetTargets_def Let_def)
  qed
  have "\<exists>c2. SetTargets D targets ro' ao' c1 = Some c2 \<and>
              targetItems c2 = targetItems c1 \<and> targetItemAt c2 = targetItemAt c1 \<and>
              collectors c2 = collectors c1 \<and> collectorAt c2 = collectorAt c1 \<and>
              consistentHasher c2 = consistentHasher c1 \<and> nextAddr c2 = nextAddr c1 \<and>
              TargetsPerCollector c2 = TargetsPerCollector c1 \<and>
              CollectorsAllocatable c2 = CollectorsAllocatable c1 \<and>
              TimeToAssign c2 = (TimeToAssign c1)((''SetTargets'', consistentHashingStrategyName) :=
                 Suc (TimeToAssign c1 (''SetTargets'', consistentHashingStrategyName)))" for ro' ao'
    using second[of ro' ao'] by (simp add: observeDuration_def)
  then show ?thesis using run nodiff by blast
qed

theorem SetTargets_twice_witness:
  "ring_ok exampleRing \<and> reachable exampleRing any_call exampleState \<and>
   keyedByHash exampleRing [''j1u'' \<mapsto> exampleTarget ''j1'' []] \<and>
   orders_ok exampleState (SetTargetsCall [''j1u'' \<mapsto> exampleTarget ''j1'' []] [''j1u'', ''j22u''] []) \<and>
   dom (collectors exampleState) \<noteq> {} \<and>
   (\<exists>c1. SetTargets exampleRing [''j1u'' \<mapsto> exampleTarget ''j1'' []] [''j1u'', ''j22u''] [] exampleState = Some c1 \<and>
      dom (additions (Maps (liveTargets c1) [''j1u'' \<mapsto> exampleTarget ''j1'' []])) = {} \<and>
      dom (removals (Maps (liveTargets c1) [''j1u'' \<mapsto> exampleTarget ''j1'' []])) = {} \<and>
      (\<exists>c2. SetTargets exampleRing [''j1u'' \<mapsto> exampleTarget ''j1'' []] [''j1u''] [] c1 = Some c2 \<and>
         targetItems c2 = targetItems c1 \<and> collectors c2 = collectors c1 \<and>
         collectorAt c2 = collectorAt c1 \<and> TargetsPerCollector c2 = TargetsPerCollector c1))"
proof -
  have k: "keyedByHash exampleRing [''j1u'' \<mapsto> exampleTarget ''j1'' []]"
    by (simp add: eval_simps)
  have n: "dom (collectors exampleState) \<noteq> {}" by (simp add: exampleState_targets)
  from SetTargets_twice[OF ring_ok_exampleRing exampleState_reachable k exampleState_removal_order]
  obtain c1 where
    r: "SetTargets exampleRing [''j1u'' \<mapsto> exampleTarget ''j1'' []] [''j1u'', ''j22u''] [] exampleState = Some c1"
    and d: "dom (collectors exampleState) \<noteq> {} \<longrightarrow>
              dom (additions (Maps (liveTargets c1) [''j1u'' \<mapsto> exampleTarget ''j1'' []])) = {} \<and>
              dom (removals (Maps (liveTargets c1) [''j1u'' \<mapsto> exampleTarget ''j1'' []])) = {}"
    and s: "\<forall>ro' ao'. \<exists>c2. SetTargets exampleRing [''j1u'' \<mapsto> exampleTarget ''j1'' []] ro' ao' c1 = Some c2 \<and>
              targetItems c2 = targetItems c1 \<and> targetItemAt c2 = targetItemAt c1 \<and>
              collectors c2 = collectors c1 \<and> collectorAt c2 = collectorAt c1 \<and>
              consistentHasher c2 = consistentHasher c1 \<and> nextAddr c2 = nextAddr c1 \<and>
              TargetsPerCollector c2 = TargetsPerCollector c1 \<and>
              CollectorsAllocatable c2 = CollectorsAllocatable c1 \<and>
              TimeToAssign c2 = (TimeToAssign c1)((''SetTargets'', consistentHashingStrategyName) :=
                 Suc (TimeToAssign c1 (''SetTargets'', consistentHashingStrategyName)))"
    by blast
  from s obtain c2 where
    "SetTargets exampleRing [''j1u'' \<mapsto> exampleTarget ''j1'' []] [''j1u''] [] c1 = Some c2 \<and>
         targetItems c2 = targetItems c1 \<and> collectors c2 = collectors c1 \<and>
         collectorAt c2 = collectorAt c1 \<and> TargetsPerCollector c2 = TargetsPerCollector c1"
    by blast
  then show ?thesis
    using ring_ok_exampleRing exampleState_reachable k exampleState_removal_order n r d by blast
qed

theorem SetTargets_twice_counterexample:
  "runs_ok exampleRing any_call twiceCalls newConsistentHashingAllocator \<and>
   map_option (\<lambda>c. TimeToAssign c (''SetTargets'', consistentHashingStrategyName))
     (runs exampleRing (butlast twiceCalls) newConsistentHashingAllocator) = Some 1 \<and>
   map_option (\<lambda>c. TimeToAssign c (''SetTargets'', consistentHashingStrategyName))
     (runs exampleRing twiceCalls newConsistentHashingAllocator) = Some 2 \<and>
   runs_ok exampleRing any_call twiceMiskeyedCalls newConsistentHashingAllocator \<and>
   map_option (\<lambda>c. (dom (additions (Maps (liveTargets c) [''k'' \<mapsto> exampleTarget ''j1'' []])),
                     targetItems c ''j1u'', nextAddr c))
     (runs exampleRing (butlast twiceMiskeyedCalls) newConsistentHashingAllocator) = Some ({''k''}, Some 1, 2) \<and>
   map_option (\<lambda>c. (targetItems c ''j1u'', nextAddr c))
     (runs exampleRing twiceMiskeyedCalls newConsistentHashingAllocator) = Some (Some 2, 3) \<and>
   dom (collectors newConsistentHashingAllocator) = {} \<and>
   map_option (\<lambda>c. dom (additions (Maps (liveTargets c) [''j1u'' \<mapsto> exampleTarget ''j1'' []])))
     (SetTargets exampleRing [''j1u'' \<mapsto> exampleTarget ''j1'' []] [] [''j1u''] newConsistentHashingAllocator)
     = Some {''j1u''}"
proof -
  have "runs_ok exampleRing any_call twiceCalls newConsistentHashingAllocator"
    "map_option (\<lambda>c. TimeToAssign c (''SetTargets'', consistentHashingStrategyName))
       (runs exampleRing (butlast twiceCalls) newConsistentHashingAllocator) = Some 1"
    "map_option (\<lambda>c. TimeToAssign c (''SetTargets'', consistentHashingStrategyName))
       (runs exampleRing twiceCalls newConsistentHashingAllocator) = Some 2"
    by (simp_all add: twiceCalls_def eval_simps eval_nat_numeral)
  moreover have "runs_ok exampleRing any_call twiceMiskeyedCalls newConsistentHashingAllocator"
    "map_option (\<lambda>c. (dom (additions (Maps (liveTargets c) [''k'' \<mapsto> exampleTarget ''j1'' []])),
                       targetItems c ''j1u'', nextAddr c))
       (runs exampleRing (butlast twiceMiskeyedCalls) newConsistentHashingAllocator) = Some ({''k''}, Some 1, 2)"
    "map_option (\<lambda>c. (targetItems c ''j1u'', nextAddr c))
       (runs exampleRing twiceMiskeyedCalls newConsistentHashingAllocator) = Some (Some 2, 3)"
    by (simp_all add: twiceMiskeyedCalls_def eval_simps eval_nat_numeral)
  moreover have "dom (collectors newConsistentHashingAllocator) = {}"
    "map_option (\<lambda>c. dom (additions (Maps (liveTargets c) [''j1u'' \<mapsto> exampleTarget ''j1'' []])))
       (SetTargets exampleRing [''j1u'' \<mapsto> exampleTarget ''j1'' []] [] [''j1u''] newConsistentHashingAllocator)
       = Some {''j1u''}"
    by (simp_all add: eval_simps)
  ultimately show ?thesis by blast
qed





text \<open>
  C8. The claim as amended: two runs of the allocator from its initial state that are
  given the same input maps call by call, each run under iteration orders of its own,
  with every target map keyed by its targets' hashes, both return and end with the
  same live targets under the same keys, each with the same CollectorName, and with the
  same live collectors. (The ring's lookup is a function of the ring's membership.)
\<close>

theorem deterministic_assignment:
  assumes "ring_ok D" and "list_all2 sameInput xs ys"
    and "runs_ok D (keyedCall D) xs newConsistentHashingAllocator"
    and "runs_ok D (keyedCall D) ys newConsistentHashingAllocator"
  shows "\<exists>c1 c2. runs D xs newConsistentHashingAllocator = Some c1 \<and>
           runs D ys newConsistentHashingAllocator = Some c2 \<and>
           liveTargets c1 = liveTargets c2 \<and> dom (collectors c1) = dom (collectors c2)"
proof -
  from runs_same[OF assms(1,2) invariant_initial invariant_initial refl refl assms(3,4)]
  obtain c1 c2 where r: "runs D xs newConsistentHashingAllocator = Some c1"
    "runs D ys newConsistentHashingAllocator = Some c2"
    and e: "liveTargets c1 = liveTargets c2" "consistentHasher c1 = consistentHasher c2"
    and i: "invariant D c1" "invariant D c2"
    by blast
  have "dom (collectors c1) = dom (collectors c2)"
    using e(2) invariant_ring[OF i(1)] invariant_ring[OF i(2)] by simp
  then show ?thesis using r e(1) by blast
qed

theorem deterministic_assignment_witness:
  "ring_ok exampleRing \<and> list_all2 sameInput exampleCalls exampleCallsOtherOrder \<and>
   runs_ok exampleRing (keyedCall exampleRing) exampleCalls newConsistentHashingAllocator \<and>
   runs_ok exampleRing (keyedCall exampleRing) exampleCallsOtherOrder newConsistentHashingAllocator \<and>
   (\<exists>c1 c2. runs exampleRing exampleCalls newConsistentHashingAllocator = Some c1 \<and>
           runs exampleRing exampleCallsOtherOrder newConsistentHashingAllocator = Some c2 \<and>
           liveTargets c1 = liveTargets c2 \<and> dom (collectors c1) = dom (collectors c2))"
  using deterministic_assignment[OF ring_ok_exampleRing exampleCalls_same exampleCalls_keyed]
    ring_ok_exampleRing exampleCalls_same exampleCalls_keyed
  by blast

theorem deterministic_assignment_counterexample:
  "list_all2 sameInput (miskeyedCalls [''k1'', ''au'']) (miskeyedCalls [''au'', ''k1'']) \<and>
   runs_ok exampleRing any_call (miskeyedCalls [''k1'', ''au'']) newConsistentHashingAllocator \<and>
   runs_ok exampleRing any_call (miskeyedCalls [''au'', ''k1'']) newConsistentHashingAllocator \<and>
   map_option (\<lambda>c. (map_option CollectorName (liveTargets c ''au''), map_option CollectorName (liveTargets c ''bu'')))
     (runs exampleRing (miskeyedCalls [''k1'', ''au'']) newConsistentHashingAllocator)
     = Some (Some ''A'', None) \<and>
   map_option (\<lambda>c. (map_option CollectorName (liveTargets c ''au''), map_option CollectorName (liveTargets c ''bu'')))
     (runs exampleRing (miskeyedCalls [''au'', ''k1'']) newConsistentHashingAllocator)
     = Some (Some ''A'', Some ''A'')"
  by (simp add: miskeyedCalls_def eval_simps)

text \<open>
  C9. The claim as amended: a SetCollectors call from a reachable state, with an input map
  that is not empty and whose diff against the live collectors is not empty, returns.
  After it the members of the ring, which are the keys of the collector map, are the
  updated membership: the live collectors whose key the input has, and the names of the
  collectors that the input has under other keys (for an input keyed by its collectors'
  names, the keys of the input). The target map has the keys it had. Every entry of it
  pointed to an object built before the call and points to an object built during the
  call: the assignment step ran for every live target, not only for the targets of a
  removed collector. Every live target is the target it was (job, URL, labels), stored
  under its hash, with the CollectorName that the ring, with the updated membership,
  gives for that hash.
\<close>

theorem SetCollectors_reassigns_all:
  assumes "ring_ok D" and "reachable D any_call c"
    and "orders_ok c (SetCollectorsCall cols ro ao to)"
    and "dom cols \<noteq> {}"
    and "dom (additions (Maps (liveCollectors c) cols)) \<noteq> {} \<or>
         dom (removals (Maps (liveCollectors c) cols)) \<noteq> {}"
  shows "\<exists>c'. SetCollectors D cols ro ao to c = Some c' \<and>
           consistentHasher c' =
             (dom (collectors c) \<inter> dom cols) \<union> {Name i |k i. cols k = Some i \<and> k \<notin> dom (collectors c)} \<and>
           dom (collectors c') = consistentHasher c' \<and>
           (keyedByName cols \<longrightarrow> consistentHasher c' = dom cols) \<and>
           dom (targetItems c') = dom (targetItems c) \<and>
           (\<forall>k a. targetItems c k = Some a \<longrightarrow> a < nextAddr c) \<and>
           (\<forall>k a. targetItems c' k = Some a \<longrightarrow> nextAddr c \<le> a) \<and>
           (\<forall>k t. liveTargets c k = Some t \<longrightarrow>
              (\<exists>t'. liveTargets c' k = Some t' \<and> JobName t' = JobName t \<and>
                    TargetURL t' = TargetURL t \<and> Label t' = Label t)) \<and>
           (\<forall>k t. liveTargets c' k = Some t \<longrightarrow>
              Hash D t = k \<and> locateKey D (consistentHasher c') (Hash D t) = Some (CollectorName t))"
proof -
  have i: "invariant D c" using assms(1,2) by (rule reachable_invariant)
  have w: "wfAllocator D c" using i by (simp add: invariant_def)
  have os: "is_order ro (removals (Maps (liveCollectors c) cols))"
    "is_order ao (additions (Maps (liveCollectors c) cols))" "is_order to (targetItems c)"
    using assms(3) by simp_all
  have ne: "dom cols \<noteq> dom (collectors c)"
    using assms(5) unfolding dom_Maps_additions dom_Maps_removals by auto
  from SetCollectors_effect[OF i assms(1) os] obtain c' where
    run: "SetCollectors D cols ro ao to c = Some c'" and i': "invariant D c'"
    and rg: "consistentHasher c' = ringAfter (dom (collectors c)) cols"
    and lt': "liveTargets c' = (if dom cols = {} \<or> dom cols = dom (collectors c) then liveTargets c
                           else reassigned D (ringAfter (dom (collectors c)) cols) (liveTargets c))"
    and fr: "dom cols \<noteq> {} \<and> dom cols \<noteq> dom (collectors c) \<longrightarrow>
            (\<forall>k a. targetItems c' k = Some a \<longrightarrow> nextAddr c \<le> a)"
    by blast
  have w': "wfAllocator D c'" and l': "located D c'" using i' by (simp_all add: invariant_def)
  have m1: "consistentHasher c' =
             (dom (collectors c) \<inter> dom cols) \<union> {Name i |k i. cols k = Some i \<and> k \<notin> dom (collectors c)}"
    using rg ringAfter_members[OF assms(4)] by simp
  have m2: "dom (collectors c') = consistentHasher c'" using invariant_ring[OF i'] by simp
  have m3: "keyedByName cols \<longrightarrow> consistentHasher c' = dom cols"
    using rg ringAfter_keyed[OF _ assms(4)] by simp
  have lt: "liveTargets c' = reassigned D (ringAfter (dom (collectors c)) cols) (liveTargets c)"
    using lt' ne assms(4) by simp
  have "dom (liveTargets c') = dom (liveTargets c)"
    unfolding lt reassigned_def by (auto simp del: dom_liveTargets)
  then have dm: "dom (targetItems c') = dom (targetItems c)" by simp
  have old: "\<forall>k a. targetItems c k = Some a \<longrightarrow> a < nextAddr c"
    using wf_fresh_target[OF w] by blast
  have new: "\<forall>k a. targetItems c' k = Some a \<longrightarrow> nextAddr c \<le> a"
    using fr ne assms(4) by blast
  have same: "\<forall>k t. liveTargets c k = Some t \<longrightarrow>
              (\<exists>t'. liveTargets c' k = Some t' \<and> JobName t' = JobName t \<and>
                    TargetURL t' = TargetURL t \<and> Label t' = Label t)"
    unfolding lt reassigned_def by (simp add: assigned_def)
  have loc: "\<forall>k t. liveTargets c' k = Some t \<longrightarrow>
              Hash D t = k \<and> locateKey D (consistentHasher c') (Hash D t) = Some (CollectorName t)"
    using wf_Hash[OF w'] l' by (auto simp: located_def)
  show ?thesis using run m1 m2 m3 dm old new same loc by (intro exI conjI)
qed

theorem SetCollectors_reassigns_all_witness:
  "ring_ok exampleRing \<and> reachable exampleRing any_call exampleState \<and>
   orders_ok exampleState (SetCollectorsCall [''B'' \<mapsto> NewCollector ''B''] [''A''] [] [''j1u'', ''j22u'']) \<and>
   dom [''B'' \<mapsto> NewCollector ''B''] \<noteq> {} \<and> keyedByName [''B'' \<mapsto> NewCollector ''B''] \<and>
   dom (removals (Maps (liveCollectors exampleState) [''B'' \<mapsto> NewCollector ''B''])) \<noteq> {} \<and>
   targetItems exampleState = [''j1u'' \<mapsto> 4, ''j22u'' \<mapsto> 5] \<and> nextAddr exampleState = 6 \<and>
   (\<exists>c'. SetCollectors exampleRing [''B'' \<mapsto> NewCollector ''B''] [''A''] [] [''j1u'', ''j22u''] exampleState = Some c' \<and>
         consistentHasher c' = {''B''} \<and> dom (collectors c') = {''B''} \<and>
         dom (targetItems c') = dom (targetItems exampleState) \<and>
         targetItems c' = [''j1u'' \<mapsto> 6, ''j22u'' \<mapsto> 7] \<and>
         (\<forall>k t. liveTargets c' k = Some t \<longrightarrow>
            Hash exampleRing t = k \<and>
            locateKey exampleRing (consistentHasher c') (Hash exampleRing t) = Some (CollectorName t)))"
proof -
  have o: "orders_ok exampleState (SetCollectorsCall [''B'' \<mapsto> NewCollector ''B''] [''A''] [] [''j1u'', ''j22u''])"
    using exampleCall_ok by (simp add: exampleCall_def)
  have n: "dom [''B'' \<mapsto> NewCollector ''B''] \<noteq> {}" by simp
  have k: "keyedByName [''B'' \<mapsto> NewCollector ''B'']"
    by (simp add: keyedByName_def NewCollector_def)
  have d: "dom (removals (Maps (liveCollectors exampleState) [''B'' \<mapsto> NewCollector ''B''])) \<noteq> {}"
    by (simp add: dom_Maps_removals exampleState_targets insert_Diff_if)
  from SetCollectors_reassigns_all[OF ring_ok_exampleRing exampleState_reachable o n disjI2[OF d]]
  obtain c' where
    r: "SetCollectors exampleRing [''B'' \<mapsto> NewCollector ''B''] [''A''] [] [''j1u'', ''j22u''] exampleState = Some c'"
    and m2: "dom (collectors c') = consistentHasher c'"
    and m3: "keyedByName [''B'' \<mapsto> NewCollector ''B''] \<longrightarrow> consistentHasher c' = dom [''B'' \<mapsto> NewCollector ''B'']"
    and dm: "dom (targetItems c') = dom (targetItems exampleState)"
    and loc: "\<forall>k t. liveTargets c' k = Some t \<longrightarrow>
            Hash exampleRing t = k \<and>
            locateKey exampleRing (consistentHasher c') (Hash exampleRing t) = Some (CollectorName t)"
    by (elim exE conjE)
  have rg: "consistentHasher c' = {''B''}" using m3 k by simp
  have ti: "targetItems c' = [''j1u'' \<mapsto> 6, ''j22u'' \<mapsto> 7]" using exampleCall_fresh r by simp
  have m2': "dom (collectors c') = {''B''}" using m2 rg by simp
  have E: "\<exists>c'. SetCollectors exampleRing [''B'' \<mapsto> NewCollector ''B''] [''A''] [] [''j1u'', ''j22u''] exampleState = Some c' \<and>
         consistentHasher c' = {''B''} \<and> dom (collectors c') = {''B''} \<and>
         dom (targetItems c') = dom (targetItems exampleState) \<and>
         targetItems c' = [''j1u'' \<mapsto> 6, ''j22u'' \<mapsto> 7] \<and>
         (\<forall>k t. liveTargets c' k = Some t \<longrightarrow>
            Hash exampleRing t = k \<and>
            locateKey exampleRing (consistentHasher c') (Hash exampleRing t) = Some (CollectorName t))"
  proof (intro exI conjI)
    show "SetCollectors exampleRing [''B'' \<mapsto> NewCollector ''B''] [''A''] [] [''j1u'', ''j22u''] exampleState = Some c'"
      by (fact r)
    show "consistentHasher c' = {''B''}" by (fact rg)
    show "dom (collectors c') = {''B''}" by (fact m2')
    show "dom (targetItems c') = dom (targetItems exampleState)" by (fact dm)
    show "targetItems c' = [''j1u'' \<mapsto> 6, ''j22u'' \<mapsto> 7]" by (fact ti)
    show "\<forall>k t. liveTargets c' k = Some t \<longrightarrow>
            Hash exampleRing t = k \<and>
            locateKey exampleRing (consistentHasher c') (Hash exampleRing t) = Some (CollectorName t)"
      by (fact loc)
  qed
  show ?thesis
    using ring_ok_exampleRing exampleState_reachable o n k d exampleState_objects E by (intro conjI)
qed

theorem SetCollectors_reassigns_all_counterexample:
  "reachable exampleRing any_call exampleState \<and>
   orders_ok exampleState (SetCollectorsCall Map.empty [''A'', ''B''] [] [''j1u'', ''j22u'']) \<and>
   dom (removals (Maps (liveCollectors exampleState) Map.empty)) = {''A'', ''B''} \<and>
   targetItems exampleState = [''j1u'' \<mapsto> 4, ''j22u'' \<mapsto> 5] \<and> nextAddr exampleState = 6 \<and>
   map_option (\<lambda>c'. (targetItems c', nextAddr c', consistentHasher c', targetItemAt c' = targetItemAt exampleState))
     (SetCollectors exampleRing Map.empty [''A'', ''B''] [] [''j1u'', ''j22u''] exampleState)
     = Some ([''j1u'' \<mapsto> 4, ''j22u'' \<mapsto> 5], 6, {''A'', ''B''}, True)"
proof -
  have "orders_ok exampleState (SetCollectorsCall Map.empty [''A'', ''B''] [] [''j1u'', ''j22u''])"
    "dom (removals (Maps (liveCollectors exampleState) Map.empty)) = {''A'', ''B''}"
    by (simp_all add: exampleState_def exampleCalls_def eval_simps)
  moreover have "map_option (\<lambda>c'. (targetItems c', nextAddr c', consistentHasher c', targetItemAt c' = targetItemAt exampleState))
     (SetCollectors exampleRing Map.empty [''A'', ''B''] [] [''j1u'', ''j22u''] exampleState)
     = Some (targetItems exampleState, nextAddr exampleState, consistentHasher exampleState, True)"
    by (simp add: SetCollectors_def observeDuration_def)
  moreover have "consistentHasher exampleState = {''A'', ''B''}"
    using invariant_ring[OF reachable_invariant[OF ring_ok_exampleRing exampleState_reachable]]
      exampleState_targets(3) by simp
  ultimately show ?thesis using exampleState_reachable exampleState_objects by simp
qed

text \<open>
  C10. A call of addTargetToTargetItems in a state without collectors panics (the nil
  owner, or the missing entry of the collector map, is dereferenced). In every state
  that calls of SetTargets and SetCollectors reach, the ring's members are the live
  collectors, and every further call of SetTargets or SetCollectors, with any input and
  under any iteration order, returns: the panic is out of reach of the public
  operations, so they never run the assignment step without a live collector.
\<close>

theorem addTargetToTargetItems_collector_present:
  assumes "ring_ok D" and "reachable D any_call c"
  shows "(\<forall>s t. dom (collectors s) = {} \<longrightarrow> addTargetToTargetItems D t s = None) \<and>
         consistentHasher c = dom (collectors c) \<and>
         (\<forall>x. orders_ok c x \<longrightarrow> (\<exists>c'. run D x c = Some c'))"
proof -
  have i: "invariant D c" using assms by (rule reachable_invariant)
  have "consistentHasher c = dom (collectors c)" using i wf_ring by (auto simp: invariant_def)
  moreover have "\<exists>c'. run D x c = Some c'" if "orders_ok c x" for x
    using run_effect[OF i assms(1) that] by blast
  ultimately show ?thesis using addTargetToTargetItems_no_collectors by blast
qed

theorem addTargetToTargetItems_collector_present_witness:
  "ring_ok exampleRing \<and> reachable exampleRing any_call exampleState \<and>
   dom (collectors newConsistentHashingAllocator) = {} \<and>
   addTargetToTargetItems exampleRing (exampleTarget ''j1'' []) newConsistentHashingAllocator = None \<and>
   consistentHasher exampleState = dom (collectors exampleState) \<and>
   orders_ok exampleState exampleCall \<and>
   (\<exists>c'. run exampleRing exampleCall exampleState = Some c')"
proof -
  have e: "dom (collectors newConsistentHashingAllocator) = {}"
    by (simp add: newConsistentHashingAllocator_def)
  show ?thesis
    using addTargetToTargetItems_collector_present[OF ring_ok_exampleRing exampleState_reachable]
      ring_ok_exampleRing exampleState_reachable exampleCall_ok e
    by blast
qed

end
